theory Spec2Isabelle
  imports Complex_Main "HOL-Library.Log_Nat" "HOL-Library.Char_ord" "HOL-Library.List_Lexorder"
begin

section \<open>Python floats: IEEE 754 binary64 values and their arithmetic\<close>

text \<open>
  The times of a segment are Python floats, that is C doubles. A finite double is modelled
  by the rational number it denotes; \<open>is_float\<close> says which rationals are doubles.
  The arithmetic operators of Python round the exact result to the nearest double, ties
  to the even significand (\<open>rnd\<close>). Signed zeros, infinities and NaN are not modelled:
  every operation below is applied to finite values and its result stays far below the
  largest double.
\<close>

definition ilog2 :: "rat \<Rightarrow> int" where
  \<comment> \<open>the binary exponent \<open>e\<close> with \<open>2^e \<le> |q| < 2^(e+1)\<close>, for \<open>q \<noteq> 0\<close>\<close>
  "ilog2 q = (let (a, b) = quotient_of \<bar>q\<bar>; d = bitlen a - bitlen b
              in if 2 powi d \<le> \<bar>q\<bar> then d else d - 1)"

definition ulp_exp :: "rat \<Rightarrow> int" where
  \<comment> \<open>exponent of the last place of a 53-bit significand; \<open>- 1074\<close> in the subnormal range\<close>
  "ulp_exp q = max (ilog2 q - 52) (- 1074)"

definition round_half_even :: "rat \<Rightarrow> int" where
  "round_half_even r =
     (let f = \<lfloor>r\<rfloor>; d = r - of_int f
      in if d < 1 / 2 then f else if 1 / 2 < d then f + 1 else if even f then f else f + 1)"

definition rnd :: "rat \<Rightarrow> rat" where
  "rnd q = of_int (round_half_even (q / 2 powi ulp_exp q)) * 2 powi ulp_exp q"

definition is_float :: "rat \<Rightarrow> bool" where
  "is_float q \<longleftrightarrow>
     \<bar>q\<bar> < 2 ^ 1024 \<and> (let r = q / 2 powi ulp_exp q in of_int \<lfloor>r\<rfloor> = r)"

definition float_sub :: "rat \<Rightarrow> rat \<Rightarrow> rat" where
  "float_sub a b = rnd (a - b)"

definition float_add :: "rat \<Rightarrow> rat \<Rightarrow> rat" where
  "float_add a b = rnd (a + b)"

definition float_mul :: "rat \<Rightarrow> rat \<Rightarrow> rat" where
  "float_mul a b = rnd (a * b)"

definition float_div :: "rat \<Rightarrow> rat \<Rightarrow> rat" where
  "float_div a b = rnd (a / b)"

definition float_of_int :: "int \<Rightarrow> rat" where
  "float_of_int n = rnd (of_int n)"

definition py_int :: "rat \<Rightarrow> int" where
  \<comment> \<open>\<open>int(x)\<close> of a float: truncation towards zero\<close>
  "py_int x = (if 0 \<le> x then \<lfloor>x\<rfloor> else \<lceil>x\<rceil>)"

definition fmod :: "rat \<Rightarrow> rat \<Rightarrow> rat" where
  \<comment> \<open>C's \<open>fmod\<close>: exact, the result has the sign of the dividend\<close>
  "fmod x y = x - y * of_int (py_int (x / y))"

definition float_div_mod :: "rat \<Rightarrow> rat \<Rightarrow> rat \<times> rat" where
  \<comment> \<open>CPython's \<open>_float_div_mod\<close> (floatobject.c), for a divisor other than zero\<close>
  "float_div_mod vx wx =
     (let mod0 = fmod vx wx;
          div0 = float_div (float_sub vx mod0) wx;
          (div1, mod1) =
            (if mod0 \<noteq> 0
             then if (wx < 0) \<noteq> (mod0 < 0)
                  then (float_sub div0 1, float_add mod0 wx) else (div0, mod0)
             else (div0, 0));
          floordiv =
            (if div1 \<noteq> 0
             then let fd = of_int \<lfloor>div1\<rfloor>
                  in if 1 / 2 < float_sub div1 fd then float_add fd 1 else fd
             else 0)
      in (floordiv, mod1))"

definition float_floor_div :: "rat \<Rightarrow> rat \<Rightarrow> rat" where
  \<comment> \<open>\<open>vx // wx\<close>\<close>
  "float_floor_div vx wx = fst (float_div_mod vx wx)"

definition float_rem :: "rat \<Rightarrow> rat \<Rightarrow> rat" where
  \<comment> \<open>\<open>vx % wx\<close>: CPython's \<open>float_rem\<close>\<close>
  "float_rem vx wx =
     (let mod0 = fmod vx wx
      in if mod0 \<noteq> 0
         then if (wx < 0) \<noteq> (mod0 < 0) then float_add mod0 wx else mod0
         else 0)"

section \<open>Strings\<close>

definition nl :: string where
  "nl = [CHR 0x0A]"

function digits :: "int \<Rightarrow> string" where
  \<comment> \<open>the decimal digits of a non-negative integer\<close>
  "digits n =
     (if n < 10 then [char_of (48 + n)] else digits (n div 10) @ [char_of (48 + n mod 10)])"
  by pat_completeness auto
termination
  by (relation "measure nat") auto

declare digits.simps [simp del]

definition str_int :: "int \<Rightarrow> string" where
  \<comment> \<open>\<open>f"{i}"\<close>\<close>
  "str_int i = (if i < 0 then CHR ''-'' # digits (- i) else digits i)"

definition format_0d :: "nat \<Rightarrow> int \<Rightarrow> string" where
  \<comment> \<open>\<open>f"{i:0wd}"\<close>: zeros between the sign and the digits, up to width \<open>w\<close>\<close>
  "format_0d w i =
     (let sign = (if i < 0 then ''-'' else ''''); ds = digits \<bar>i\<bar>
      in sign @ replicate (w - length sign - length ds) CHR ''0'' @ ds)"

definition isspace :: "char \<Rightarrow> bool" where
  \<comment> \<open>\<open>str.isspace\<close> on the code points below 256\<close>
  "isspace c \<longleftrightarrow> (of_char c :: nat) \<in> {9, 10, 11, 12, 13, 28, 29, 30, 31, 32, 133, 160}"

definition strip :: "string \<Rightarrow> string" where
  "strip s = rev (dropWhile isspace (rev (dropWhile isspace s)))"

fun join :: "string \<Rightarrow> string list \<Rightarrow> string" where
  "join sep [] = []"
| "join sep [x] = x"
| "join sep (x # y # ys) = x @ sep @ join sep (y # ys)"

section \<open>The caption serializers of \<open>scripts/transcribe.py\<close>\<close>

record segment =
  seg_start :: rat
  seg_end :: rat
  seg_text :: string

definition format_timestamp :: "rat \<Rightarrow> bool \<Rightarrow> string" where
  "format_timestamp seconds use_comma =
     (let hours = py_int (float_floor_div seconds 3600);
          minutes = py_int (float_floor_div (float_rem seconds 3600) 60);
          secs = py_int (float_rem seconds 60);
          millis = py_int (float_mul (float_sub seconds (float_of_int (py_int seconds))) 1000);
          sep = (if use_comma then '','' else ''.'')
      in format_0d 2 hours @ '':'' @ format_0d 2 minutes @ '':'' @ format_0d 2 secs
         @ sep @ format_0d 3 millis)"

fun srt_lines :: "int \<Rightarrow> segment list \<Rightarrow> string list" where
  \<comment> \<open>the loop of \<open>generate_srt\<close>; \<open>i\<close> is the counter of \<open>enumerate(segments, 1)\<close>\<close>
  "srt_lines i [] = []"
| "srt_lines i (seg # segments) =
     (let start = format_timestamp (seg_start seg) True;
          end' = format_timestamp (seg_end seg) True;
          text' = strip (seg_text seg)
      in (str_int i @ nl @ start @ '' --> '' @ end' @ nl @ text' @ nl) # srt_lines (i + 1) segments)"

definition generate_srt :: "segment list \<Rightarrow> string" where
  "generate_srt segments = join nl (srt_lines 1 segments)"

fun vtt_lines :: "segment list \<Rightarrow> string list" where
  "vtt_lines [] = []"
| "vtt_lines (seg # segments) =
     (let start = format_timestamp (seg_start seg) False;
          end' = format_timestamp (seg_end seg) False;
          text' = strip (seg_text seg)
      in (start @ '' --> '' @ end' @ nl @ text' @ nl) # vtt_lines segments)"

definition generate_vtt :: "segment list \<Rightarrow> string" where
  "generate_vtt segments = join nl ((''WEBVTT'' @ nl) # vtt_lines segments)"


section \<open>Paths: the part of \<open>pathlib\<close> that \<open>transcribe\<close> uses\<close>

text \<open>
  A \<open>pathlib\<close> path on a POSIX system is a root (empty, one slash or two slashes) and a
  list of components. Parsing a string drops empty components and the component \<open>.\<close>;
  the string form joins the components again.
\<close>

record path =
  path_root :: string
  path_parts :: "string list"

fun split_sep :: "char \<Rightarrow> string \<Rightarrow> string list" where
  \<comment> \<open>\<open>s.split(c)\<close>\<close>
  "split_sep c [] = [[]]"
| "split_sep c (x # xs) =
     (if x = c then [] # split_sep c xs
      else (case split_sep c xs of [] \<Rightarrow> [[x]] | w # ws \<Rightarrow> (x # w) # ws))"

definition splitroot :: "string \<Rightarrow> string \<times> string" where
  "splitroot part =
     (case part of
        [] \<Rightarrow> ([], part)
      | c # _ \<Rightarrow>
          if c = CHR ''/''
          then let stripped_part = dropWhile (\<lambda>x. x = CHR ''/'') part
               in if length part - length stripped_part = 2
                  then (''//'', stripped_part) else (''/'', stripped_part)
          else ([], part))"

definition Path :: "string \<Rightarrow> path" where
  "Path s =
     (let (root, rel) = splitroot s
      in \<lparr>path_root = root,
          path_parts = filter (\<lambda>x. x \<noteq> [] \<and> x \<noteq> ''.'') (split_sep CHR ''/'' rel)\<rparr>)"

definition path_str :: "path \<Rightarrow> string" where
  "path_str p =
     (let s = path_root p @ join ''/'' (path_parts p) in if s = [] then ''.'' else s)"

definition path_name :: "path \<Rightarrow> string" where
  "path_name p = (if path_parts p = [] then [] else last (path_parts p))"

definition rfind :: "char \<Rightarrow> string \<Rightarrow> int" where
  \<comment> \<open>\<open>s.rfind(c)\<close>: the index of the last occurrence, \<open>- 1\<close> when there is none\<close>
  "rfind c s =
     (if c \<in> set s then int (length s) - 1 - int (length (takeWhile (\<lambda>x. x \<noteq> c) (rev s)))
      else - 1)"

definition path_suffix :: "path \<Rightarrow> string" where
  "path_suffix p =
     (let name = path_name p; i = rfind CHR ''.'' name
      in if 0 < i \<and> i < int (length name) - 1 then drop (nat i) name else [])"

datatype error =
    FileNotFoundError string
  | ValueError string
  | ValueError_invalid_suffix string
  | ValueError_empty_name path

definition with_suffix :: "path \<Rightarrow> string \<Rightarrow> error + path" where
  "with_suffix p suffix =
     (if CHR ''/'' \<in> set suffix then Inl (ValueError_invalid_suffix suffix)
      else if (suffix \<noteq> [] \<and> hd suffix \<noteq> CHR ''.'') \<or> suffix = ''.''
      then Inl (ValueError_invalid_suffix suffix)
      else let name = path_name p
           in if name = [] then Inl (ValueError_empty_name p)
              else let old_suffix = path_suffix p;
                       name' = (if old_suffix = [] then name @ suffix
                                else take (length name - length old_suffix) name @ suffix)
                   in Inr (p\<lparr>path_parts := butlast (path_parts p) @ [name']\<rparr>))"

section \<open>\<open>transcribe\<close>\<close>

text \<open>
  The speech model and the JSON encoder are outside the repository: \<open>transcribe\<close> takes
  them as parameters, together with the test \<open>Path.exists\<close>. The files written and the
  lines printed are the state.
\<close>

record result =
  res_segments :: "segment list"
  res_text :: string

record world =
  files :: "string \<rightharpoonup> string"
  stdout :: "string list"

definition print :: "string \<Rightarrow> world \<Rightarrow> world" where
  "print line w = w\<lparr>stdout := stdout w @ [line]\<rparr>"

definition write_text :: "path \<Rightarrow> string \<Rightarrow> world \<Rightarrow> world" where
  "write_text p content w = w\<lparr>files := (files w)(path_str p \<mapsto> content)\<rparr>"

definition output_path_of :: "path \<Rightarrow> string option \<Rightarrow> string \<Rightarrow> error + path" where
  \<comment> \<open>``Determine output path''; \<open>None\<close> and the empty string are both false in \<open>if output_path\<close>\<close>
  "output_path_of input_path output_path output_format =
     (case output_path of
        None \<Rightarrow> with_suffix input_path (''.'' @ output_format)
      | Some s \<Rightarrow> if s \<noteq> [] then Inr (Path s)
                 else with_suffix input_path (''.'' @ output_format))"

definition generate_content :: "(result \<Rightarrow> string) \<Rightarrow> result \<Rightarrow> string \<Rightarrow> error + string" where
  \<comment> \<open>``Generate output based on format''\<close>
  "generate_content dumps res output_format =
     (if output_format = ''srt'' then Inr (generate_srt (res_segments res))
      else if output_format = ''vtt'' then Inr (generate_vtt (res_segments res))
      else if output_format = ''txt'' then Inr (res_text res)
      else if output_format = ''json'' then Inr (dumps res)
      else Inl (ValueError (''Unsupported format: '' @ output_format)))"

definition transcribe ::
  "(string \<Rightarrow> bool) \<Rightarrow> (string \<Rightarrow> string \<Rightarrow> result) \<Rightarrow> (result \<Rightarrow> string) \<Rightarrow>
   string \<Rightarrow> string \<Rightarrow> string option \<Rightarrow> string \<Rightarrow> world \<Rightarrow> (error + path) \<times> world" where
  "transcribe exists whisper dumps input_file model_name output_path output_format w =
     (let input_path = Path input_file
      in if \<not> exists (path_str input_path)
         then (Inl (FileNotFoundError (''Input file not found: '' @ input_file)), w)
         else case output_path_of input_path output_path output_format of
                Inl e \<Rightarrow> (Inl e, w)
              | Inr out_path \<Rightarrow>
                  let w1 = print (''Loading Whisper model: '' @ model_name) w;
                      w2 = print (''Transcribing: '' @ input_file) w1;
                      res = whisper model_name (path_str input_path)
                  in case generate_content dumps res output_format of
                       Inl e \<Rightarrow> (Inl e, w2)
                     | Inr content \<Rightarrow>
                         (Inr out_path,
                          print (''Output written to: '' @ path_str out_path)
                            (write_text out_path content w2)))"

section \<open>Reading a timestamp back\<close>

definition isdigit :: "char \<Rightarrow> bool" where
  "isdigit c \<longleftrightarrow> CHR ''0'' \<le> c \<and> c \<le> CHR ''9''"

definition matches_timestamp :: "string \<Rightarrow> bool" where
  \<comment> \<open>the whole string matches \<open>\d{2,}:\d{2}:\d{2}[,.]\d{3}\<close>\<close>
  "matches_timestamp s =
     (let h = takeWhile isdigit s
      in 2 \<le> length h \<and>
         (case dropWhile isdigit s of
            [c1, m1, m2, c2, s1, s2, sep, f1, f2, f3] \<Rightarrow>
              c1 = CHR '':'' \<and> isdigit m1 \<and> isdigit m2 \<and> c2 = CHR '':'' \<and> isdigit s1 \<and> isdigit s2
              \<and> (sep = CHR '','' \<or> sep = CHR ''.'') \<and> isdigit f1 \<and> isdigit f2 \<and> isdigit f3
          | _ \<Rightarrow> False))"

definition number_of :: "string \<Rightarrow> int" where
  \<comment> \<open>the number a string of decimal digits denotes\<close>
  "number_of ds = foldl (\<lambda>n c. 10 * n + (int (of_char c) - 48)) 0 ds"

definition parse_timestamp :: "string \<Rightarrow> (int \<times> int \<times> int \<times> int) option" where
  \<comment> \<open>hours, minutes, seconds and milliseconds of a timestamp\<close>
  "parse_timestamp s =
     (if matches_timestamp s
      then (case dropWhile isdigit s of
              [c1, m1, m2, c2, s1, s2, sep, f1, f2, f3] \<Rightarrow>
                Some (number_of (takeWhile isdigit s), number_of [m1, m2], number_of [s1, s2],
                      number_of [f1, f2, f3])
            | _ \<Rightarrow> None)
      else None)"

definition timestamp_seconds :: "int \<times> int \<times> int \<times> int \<Rightarrow> rat" where
  \<comment> \<open>\<open>hours*3600 + minutes*60 + secs + millis/1000\<close>, evaluated as Python does\<close>
  "timestamp_seconds t =
     (case t of (hours, minutes, secs, millis) \<Rightarrow>
        float_add (float_of_int (hours * 3600 + minutes * 60 + secs))
                  (float_div (float_of_int millis) (float_of_int 1000)))"


section \<open>The timestamp formula in exact arithmetic\<close>

text \<open>
  The formula of the specification, read over the rational numbers: no operation rounds.
  It is stated here to be compared with \<open>format_timestamp\<close>.
\<close>

definition rat_mod :: "rat \<Rightarrow> rat \<Rightarrow> rat" where
  "rat_mod x y = x - y * of_int \<lfloor>x / y\<rfloor>"

definition timestamp_spec :: "rat \<Rightarrow> bool \<Rightarrow> string" where
  "timestamp_spec seconds comma =
     (let hours = \<lfloor>seconds / 3600\<rfloor>;
          minutes = \<lfloor>rat_mod seconds 3600 / 60\<rfloor>;
          secs = \<lfloor>rat_mod seconds 60\<rfloor>;
          millis = \<lfloor>(seconds - of_int \<lfloor>seconds\<rfloor>) * 1000\<rfloor>
      in format_0d 2 hours @ '':'' @ format_0d 2 minutes @ '':'' @ format_0d 2 secs
         @ (if comma then '','' else ''.'') @ format_0d 3 millis)"


section \<open>Document structure\<close>


lemma join_snoc: "join sep (xs @ [x]) = (if xs = [] then x else join sep xs @ sep @ x)"
  by (induction sep xs rule: join.induct) auto

lemma join_Cons: "join sep (x # xs) = (if xs = [] then x else x @ sep @ join sep xs)"
  by (cases xs) auto

lemma join_append:
  "join sep (xs @ ys) =
     (if xs = [] then join sep ys else if ys = [] then join sep xs
      else join sep xs @ sep @ join sep ys)"
  by (induction sep xs rule: join.induct) (auto simp: join_Cons)

lemma srt_lines_append:
  "srt_lines i (xs @ ys) = srt_lines i xs @ srt_lines (i + int (length xs)) ys"
  by (induction xs arbitrary: i) (auto simp: Let_def add.assoc)

lemma vtt_lines_append: "vtt_lines (xs @ ys) = vtt_lines xs @ vtt_lines ys"
  by (induction xs) (auto simp: Let_def)

lemma srt_lines_eq_Nil [simp]: "srt_lines i xs = [] \<longleftrightarrow> xs = []"
  by (cases xs) (auto simp: Let_def)

lemma vtt_lines_eq_Nil [simp]: "vtt_lines xs = [] \<longleftrightarrow> xs = []"
  by (cases xs) (auto simp: Let_def)

lemma srt_two_segments:
  "generate_srt [\<lparr>seg_start = 0, seg_end = 3 / 2, seg_text = ''Hello''\<rparr>,
                 \<lparr>seg_start = 3 / 2, seg_end = 13 / 4, seg_text = ''World''\<rparr>]
   = ''1\<newline>00:00:00,000 --> 00:00:01,500\<newline>Hello\<newline>\<newline>2\<newline>00:00:01,500 --> 00:00:03,250\<newline>World\<newline>''"
  by code_simp

lemma vtt_two_segments:
  "generate_vtt [\<lparr>seg_start = 0, seg_end = 3 / 2, seg_text = ''Hello''\<rparr>,
                 \<lparr>seg_start = 3 / 2, seg_end = 13 / 4, seg_text = ''World''\<rparr>]
   = ''WEBVTT\<newline>\<newline>00:00:00.000 --> 00:00:01.500\<newline>Hello\<newline>\<newline>00:00:01.500 --> 00:00:03.250\<newline>World\<newline>''"
  by code_simp

text \<open>
  Claim C1, as stated, fails on the two-segment scenario: the document \<open>generate_srt\<close>
  returns ends with the newline after \<open>World\<close>, not with a further blank line.
\<close>

theorem C1_counterexample:
  "generate_srt [\<lparr>seg_start = 0, seg_end = 3 / 2, seg_text = ''Hello''\<rparr>,
                 \<lparr>seg_start = 3 / 2, seg_end = 13 / 4, seg_text = ''World''\<rparr>]
   \<noteq> ''1\<newline>00:00:00,000 --> 00:00:01,500\<newline>Hello\<newline>\<newline>2\<newline>00:00:01,500 --> 00:00:03,250\<newline>World\<newline>\<newline>''"
  unfolding srt_two_segments by simp

text \<open>
  Claim C1, amended: the two segments render to the document below, which ends with one
  newline after \<open>World\<close>. In general the blocks come in sequence order, numbered from 1:
  the document of \<open>segments @ [seg]\<close> is the document of \<open>segments\<close>, one separating
  newline (the blank line between blocks) when \<open>segments\<close> is not empty, and the block of
  \<open>seg\<close>; it ends with the newline of that block's text line, and no blank line follows.
\<close>

theorem generate_srt_blocks:
  "generate_srt [\<lparr>seg_start = 0, seg_end = 3 / 2, seg_text = ''Hello''\<rparr>,
                 \<lparr>seg_start = 3 / 2, seg_end = 13 / 4, seg_text = ''World''\<rparr>]
   = ''1\<newline>00:00:00,000 --> 00:00:01,500\<newline>Hello\<newline>\<newline>2\<newline>00:00:01,500 --> 00:00:03,250\<newline>World\<newline>''
   \<and> generate_srt [] = []
   \<and> generate_srt (segments @ [seg]) =
       (if segments = [] then [] else generate_srt segments @ nl)
       @ str_int (int (length segments) + 1) @ nl
       @ format_timestamp (seg_start seg) True @ '' --> '' @ format_timestamp (seg_end seg) True @ nl
       @ strip (seg_text seg) @ nl"
proof (intro conjI)
  show "generate_srt (segments @ [seg]) =
       (if segments = [] then [] else generate_srt segments @ nl)
       @ str_int (int (length segments) + 1) @ nl
       @ format_timestamp (seg_start seg) True @ '' --> '' @ format_timestamp (seg_end seg) True @ nl
       @ strip (seg_text seg) @ nl"
    by (simp add: generate_srt_def srt_lines_append join_snoc Let_def add.commute)
qed (rule srt_two_segments, simp add: generate_srt_def)

text \<open>
  Claim C2, as stated, fails for WebVTT: the document of no segments is not the header
  followed by a blank line.
\<close>

theorem C2_counterexample: "generate_vtt [] \<noteq> ''WEBVTT\<newline>\<newline>''"
  by (simp add: generate_vtt_def nl_def)

text \<open>
  Claim C2, amended: for the empty segment sequence SubRip rendering gives the empty string
  and WebVTT rendering gives exactly the header line \<open>WEBVTT\<close> with its newline.
\<close>

theorem empty_documents: "generate_srt [] = [] \<and> generate_vtt [] = ''WEBVTT\<newline>''"
  by (simp add: generate_srt_def generate_vtt_def nl_def)

text \<open>
  Claim C3, as stated, fails on the two-segment scenario: the WebVTT document ends with
  the newline after \<open>World\<close>, not with a further blank line.
\<close>

theorem C3_counterexample:
  "generate_vtt [\<lparr>seg_start = 0, seg_end = 3 / 2, seg_text = ''Hello''\<rparr>,
                 \<lparr>seg_start = 3 / 2, seg_end = 13 / 4, seg_text = ''World''\<rparr>]
   \<noteq> ''WEBVTT\<newline>\<newline>00:00:00.000 --> 00:00:01.500\<newline>Hello\<newline>\<newline>00:00:01.500 --> 00:00:03.250\<newline>World\<newline>\<newline>''"
  unfolding vtt_two_segments by simp

text \<open>
  Claim C3, amended: the two segments render to the document below. In general the document
  of no segments is the header line; the document of \<open>segments @ [seg]\<close> is the document
  of \<open>segments\<close>, a separating newline, and the cue of \<open>seg\<close>: the timing line with the dot
  separator, the trimmed text and a newline, with no number. No blank line follows the last cue.
\<close>

theorem generate_vtt_blocks:
  "generate_vtt [\<lparr>seg_start = 0, seg_end = 3 / 2, seg_text = ''Hello''\<rparr>,
                 \<lparr>seg_start = 3 / 2, seg_end = 13 / 4, seg_text = ''World''\<rparr>]
   = ''WEBVTT\<newline>\<newline>00:00:00.000 --> 00:00:01.500\<newline>Hello\<newline>\<newline>00:00:01.500 --> 00:00:03.250\<newline>World\<newline>''
   \<and> generate_vtt [] = ''WEBVTT'' @ nl
   \<and> generate_vtt (segments @ [seg]) =
       generate_vtt segments @ nl
       @ format_timestamp (seg_start seg) False @ '' --> '' @ format_timestamp (seg_end seg) False @ nl
       @ strip (seg_text seg) @ nl"
proof (intro conjI)
  have "join nl ((''WEBVTT'' @ nl) # vtt_lines segments @ [x]) =
        join nl ((''WEBVTT'' @ nl) # vtt_lines segments) @ nl @ x" for x
    using join_snoc [of nl "(''WEBVTT'' @ nl) # vtt_lines segments" x] by simp
  then show "generate_vtt (segments @ [seg]) =
       generate_vtt segments @ nl
       @ format_timestamp (seg_start seg) False @ '' --> '' @ format_timestamp (seg_end seg) False @ nl
       @ strip (seg_text seg) @ nl"
    by (simp add: generate_vtt_def vtt_lines_append Let_def)
qed (rule vtt_two_segments, simp add: generate_vtt_def)

section \<open>Blank texts and unsupported formats\<close>


lemma strip_whitespace:
  assumes "\<forall>c\<in>set s. isspace c"
  shows "strip s = []"
proof -
  have d: "dropWhile isspace s = []"
    using assms by (simp add: dropWhile_eq_Nil_conv)
  show ?thesis unfolding strip_def d by simp
qed

lemma generate_srt_middle:
  "generate_srt (pre @ seg # post) =
     (if pre = [] then [] else generate_srt pre @ nl)
     @ (str_int (int (length pre) + 1) @ nl
        @ format_timestamp (seg_start seg) True @ '' --> '' @ format_timestamp (seg_end seg) True @ nl
        @ strip (seg_text seg) @ nl)
     @ (if post = [] then [] else nl @ join nl (srt_lines (int (length pre) + 2) post))"
  by (simp add: generate_srt_def srt_lines_append join_append join_Cons Let_def add.commute)

lemma generate_vtt_middle:
  "generate_vtt (pre @ seg # post) =
     generate_vtt pre @ nl
     @ (format_timestamp (seg_start seg) False @ '' --> '' @ format_timestamp (seg_end seg) False @ nl
        @ strip (seg_text seg) @ nl)
     @ (if post = [] then [] else nl @ join nl (vtt_lines post))"
proof -
  have "join nl (((''WEBVTT'' @ nl) # vtt_lines pre) @ (b # vtt_lines post)) =
        join nl ((''WEBVTT'' @ nl) # vtt_lines pre) @ nl @ join nl (b # vtt_lines post)" for b
    by (subst join_append) simp
  then show ?thesis
    by (simp add: generate_vtt_def vtt_lines_append join_Cons Let_def)
qed

text \<open>
  Claim C9: a segment whose text is empty or only whitespace keeps its place in both
  documents, whatever stands before and after it. Its block is the number (SubRip only),
  the timing line, and an empty text line, so that the timing line is followed directly
  by a blank line; the blocks before and after it are those of the other segments.
\<close>

theorem blank_text_block_kept:
  assumes "\<forall>c\<in>set (seg_text seg). isspace c"
  shows "generate_srt (pre @ seg # post) =
           (if pre = [] then [] else generate_srt pre @ nl)
           @ (str_int (int (length pre) + 1) @ nl
              @ format_timestamp (seg_start seg) True @ '' --> ''
              @ format_timestamp (seg_end seg) True @ nl @ nl)
           @ (if post = [] then [] else nl @ join nl (srt_lines (int (length pre) + 2) post))
         \<and> generate_vtt (pre @ seg # post) =
           generate_vtt pre @ nl
           @ (format_timestamp (seg_start seg) False @ '' --> ''
              @ format_timestamp (seg_end seg) False @ nl @ nl)
           @ (if post = [] then [] else nl @ join nl (vtt_lines post))"
  using strip_whitespace [OF assms]
  by (simp only: generate_srt_middle generate_vtt_middle append_Nil simp_thms)

theorem blank_text_block_kept_witness:
  "generate_srt [\<lparr>seg_start = 0, seg_end = 3 / 2, seg_text = '' ''\<rparr>]
       = ''1\<newline>00:00:00,000 --> 00:00:01,500\<newline>\<newline>''
   \<and> generate_vtt [\<lparr>seg_start = 0, seg_end = 3 / 2, seg_text = '' ''\<rparr>]
       = ''WEBVTT\<newline>\<newline>00:00:00.000 --> 00:00:01.500\<newline>\<newline>''"
proof -
  have h: "\<forall>c\<in>set (seg_text \<lparr>seg_start = 0, seg_end = 3 / 2, seg_text = '' ''\<rparr>). isspace c"
    by (simp add: isspace_def)
  have t0: "format_timestamp 0 True = ''00:00:00,000''" by code_simp
  have t1: "format_timestamp (3 / 2) True = ''00:00:01,500''" by code_simp
  have t2: "format_timestamp 0 False = ''00:00:00.000''" by code_simp
  have t3: "format_timestamp (3 / 2) False = ''00:00:01.500''" by code_simp
  have s1: "str_int 1 = ''1''" by code_simp
  have v0: "generate_vtt [] = ''WEBVTT\<newline>''" by (simp add: generate_vtt_def nl_def)
  show ?thesis
    using blank_text_block_kept [OF h, of "[]" "[]"]
    by (simp add: t0 t1 t2 t3 s1 v0 nl_def)
qed

text \<open>
  Claim C6: for a format outside \<open>srt\<close>, \<open>vtt\<close>, \<open>txt\<close>, \<open>json\<close> the rendering step fails with
  the \<open>ValueError\<close> whose message is \<open>Unsupported format: \<close> followed by the value; the call
  of \<open>transcribe\<close> returns an error and no path, and the files are what they were. The error
  is that of the rendering step whenever the input exists and an output path was determined.
\<close>

theorem unsupported_format_fails:
  assumes "output_format \<notin> {''srt'', ''vtt'', ''txt'', ''json''}"
  shows "generate_content dumps res output_format
           = Inl (ValueError (''Unsupported format: '' @ output_format))
         \<and> isl (fst (transcribe exists whisper dumps input_file model_name output_path output_format w))
         \<and> files (snd (transcribe exists whisper dumps input_file model_name output_path output_format w))
           = files w
         \<and> (exists (path_str (Path input_file))
              \<and> \<not> isl (output_path_of (Path input_file) output_path output_format)
            \<longrightarrow> fst (transcribe exists whisper dumps input_file model_name output_path output_format w)
                = Inl (ValueError (''Unsupported format: '' @ output_format)))"
proof -
  have g: "generate_content dumps r output_format
           = Inl (ValueError (''Unsupported format: '' @ output_format))" for r
    using assms by (simp add: generate_content_def)
  show ?thesis
    by (auto simp: g transcribe_def Let_def print_def split: sum.splits)
qed

theorem unsupported_format_fails_witness:
  "''xml'' \<notin> {''srt'', ''vtt'', ''txt'', ''json''}
   \<and> transcribe (\<lambda>p. True) (\<lambda>m p. \<lparr>res_segments = [], res_text = []\<rparr>) (\<lambda>r. ''{}'')
         ''clip.mp4'' ''turbo'' (Some ''out.xml'') ''xml'' \<lparr>files = Map.empty, stdout = []\<rparr>
       = (Inl (ValueError ''Unsupported format: xml''),
          \<lparr>files = Map.empty,
           stdout = [''Loading Whisper model: turbo'', ''Transcribing: clip.mp4'']\<rparr>)"
proof -
  have h: "''xml'' \<notin> {''srt'', ''vtt'', ''txt'', ''json''}" by simp
  have g: "generate_content (\<lambda>r. ''{}'') r ''xml'' = Inl (ValueError ''Unsupported format: xml'')" for r
    using unsupported_format_fails [OF h, of "\<lambda>r. ''{}''" r] by simp
  show ?thesis
    using h by (simp add: g transcribe_def output_path_of_def Let_def print_def)
qed

section \<open>Properties of the floating-point operations\<close>


lemma pow2_pos: "0 < (2::rat) powi e"
  by simp

lemma pow2_not_le_zero [simp]: "\<not> (2::rat) powi e \<le> 0"
  by (simp add: not_le)

lemma pow2_of_int: "0 \<le> k \<Longrightarrow> (of_int (2 ^ nat k) :: rat) = 2 powi k"
  by (simp add: power_int_def)

lemma pow2_less_iff: "(2::rat) powi a < 2 powi b \<longleftrightarrow> a < b"
  by (metis linorder_not_less numeral_One numeral_less_iff order_less_le power_int_increasing
      power_int_strict_increasing semiring_norm(76) order.asym)

lemma pow2_le_iff: "(2::rat) powi a \<le> 2 powi b \<longleftrightarrow> a \<le> b"
  using pow2_less_iff [of b a] by (auto simp: not_less [symmetric])

lemma pow2_nat: "0 \<le> e \<Longrightarrow> (2::rat) powi e = of_int (2 ^ nat e)"
  by (simp add: power_int_def)

lemma pow2_add: "(2::rat) powi (a + b) = 2 powi a * 2 powi b"
  by (simp add: power_int_add)

lemma pow2_plus1: "(2::rat) powi (a + 1) = 2 powi a * 2"
  by (simp add: power_int_add)

lemma pow2_diff: "(2::rat) powi (a - b) = 2 powi a / 2 powi b"
  by (simp add: power_int_diff)

lemma ilog2_bounds:
  assumes "q \<noteq> 0"
  shows "2 powi ilog2 q \<le> \<bar>q\<bar>" and "\<bar>q\<bar> < 2 powi (ilog2 q + 1)"
proof -
  obtain a b where ab: "quotient_of \<bar>q\<bar> = (a, b)" by (cases "quotient_of \<bar>q\<bar>")
  have b: "0 < b" using ab by (rule quotient_of_denom_pos)
  have q: "\<bar>q\<bar> = of_int a / of_int b" using ab by (rule quotient_of_div)
  have "0 < \<bar>q\<bar>" using assms by simp
  then have a: "0 < a" using b unfolding q by (simp add: zero_less_divide_iff)
  define d where "d = bitlen a - bitlen b"
  have la: "1 \<le> bitlen a" and lb: "1 \<le> bitlen b"
    using a b by (auto simp: bitlen_alt_def)
  have a1: "(2::rat) powi (bitlen a - 1) \<le> of_int a"
  proof -
    have "(of_int (2 ^ nat (bitlen a - 1)) :: rat) \<le> of_int a"
      using bitlen_bounds [OF a] by (subst of_int_le_iff) simp
    then show ?thesis using la by (simp only: pow2_of_int)
  qed
  have a2: "of_int a < (2::rat) powi bitlen a"
  proof -
    have "(of_int a :: rat) < of_int (2 ^ nat (bitlen a))"
      using bitlen_bounds [OF a] by (subst of_int_less_iff) simp
    then show ?thesis using la by (simp only: pow2_of_int)
  qed
  have b1: "(2::rat) powi (bitlen b - 1) \<le> of_int b"
  proof -
    have "(of_int (2 ^ nat (bitlen b - 1)) :: rat) \<le> of_int b"
      using bitlen_bounds [OF b] by (subst of_int_le_iff) simp
    then show ?thesis using lb by (simp only: pow2_of_int)
  qed
  have b2: "of_int b < (2::rat) powi bitlen b"
  proof -
    have "(of_int b :: rat) < of_int (2 ^ nat (bitlen b))"
      using bitlen_bounds [OF b] by (subst of_int_less_iff) simp
    then show ?thesis using lb by (simp only: pow2_of_int)
  qed
  have bpos: "0 < (of_int b :: rat)" using b by simp
  have "\<bar>q\<bar> * 2 powi bitlen b < 2 powi (d + 1) * 2 powi bitlen b"
  proof -
    have "\<bar>q\<bar> * 2 powi bitlen b = of_int a * (2 powi bitlen b / of_int b)"
      unfolding q by simp
    also have "\<dots> < 2 powi bitlen a * (2 powi bitlen b / of_int b)"
      by (rule mult_strict_right_mono [OF a2 divide_pos_pos [OF pow2_pos bpos]])
    also have "\<dots> \<le> 2 powi bitlen a * (2 powi bitlen b / 2 powi (bitlen b - 1))"
      using b1 b by (intro mult_left_mono divide_left_mono) (simp_all add: zero_less_mult_iff)
    also have "\<dots> = 2 powi (d + 1) * 2 powi bitlen b"
      by (simp add: d_def pow2_plus1 flip: pow2_diff pow2_add)
    finally show ?thesis .
  qed
  then have up: "\<bar>q\<bar> < 2 powi (d + 1)" by simp
  have "2 powi (d - 1) * of_int b < \<bar>q\<bar> * of_int b"
  proof -
    have "(2::rat) powi (d - 1) * of_int b < 2 powi (d - 1) * 2 powi bitlen b"
      by (rule mult_strict_left_mono [OF b2 pow2_pos])
    also have "\<dots> = 2 powi (bitlen a - 1)"
      by (simp add: d_def flip: pow2_add)
    also have "\<dots> \<le> of_int a" by (rule a1)
    also have "\<dots> = \<bar>q\<bar> * of_int b" unfolding q using bpos by simp
    finally show ?thesis .
  qed
  then have lo: "2 powi (d - 1) < \<bar>q\<bar>" using bpos by simp
  have il: "ilog2 q = (if 2 powi d \<le> \<bar>q\<bar> then d else d - 1)"
    by (simp add: ilog2_def ab d_def Let_def)
  show "2 powi ilog2 q \<le> \<bar>q\<bar>" using lo by (simp add: il)
  show "\<bar>q\<bar> < 2 powi (ilog2 q + 1)" using up by (auto simp: il not_le)
qed

lemma ilog2_unique:
  assumes "2 powi e \<le> \<bar>q\<bar>" and "\<bar>q\<bar> < 2 powi (e + 1)"
  shows "ilog2 q = e"
proof -
  have q: "q \<noteq> 0" using assms(1) by auto
  have "2 powi e < (2::rat) powi (ilog2 q + 1)"
    using assms(1) ilog2_bounds(2) [OF q] by simp
  moreover have "2 powi ilog2 q < (2::rat) powi (e + 1)"
    using assms(2) ilog2_bounds(1) [OF q] by simp
  ultimately show ?thesis by (simp add: pow2_less_iff)
qed

lemma ilog2_mono:
  assumes "p \<noteq> 0" and "\<bar>p\<bar> \<le> \<bar>q\<bar>"
  shows "ilog2 p \<le> ilog2 q"
proof -
  have q: "q \<noteq> 0" using assms by auto
  have "2 powi ilog2 p < (2::rat) powi (ilog2 q + 1)"
    using ilog2_bounds(1) [OF assms(1)] ilog2_bounds(2) [OF q] assms(2) by simp
  then show ?thesis by (simp add: pow2_less_iff)
qed

lemma ilog2_less:
  assumes "\<bar>q\<bar> < 2 powi e" and "q \<noteq> 0"
  shows "ilog2 q < e"
proof -
  have "2 powi ilog2 q < (2::rat) powi e"
    using ilog2_bounds(1) [OF assms(2)] assms(1) by simp
  then show ?thesis by (simp add: pow2_less_iff)
qed

lemma ilog2_ge:
  assumes "2 powi e \<le> \<bar>q\<bar>"
  shows "e \<le> ilog2 q"
proof -
  have q: "q \<noteq> 0" using assms by auto
  have "2 powi e < (2::rat) powi (ilog2 q + 1)"
    using ilog2_bounds(2) [OF q] assms by simp
  then show ?thesis by (simp add: pow2_less_iff)
qed

lemma ilog2_zero: "ilog2 0 = - 2"
  by code_simp


lemma rhe_of_int [simp]: "round_half_even (of_int k) = k"
  by (simp add: round_half_even_def)

lemma rhe_lower: "\<lfloor>r\<rfloor> \<le> round_half_even r"
  by (simp add: round_half_even_def Let_def)

lemma rhe_upper: "round_half_even r \<le> \<lfloor>r\<rfloor> + 1"
  by (simp add: round_half_even_def Let_def)

lemma rhe_mono:
  assumes "r \<le> s"
  shows "round_half_even r \<le> round_half_even s"
proof (cases "\<lfloor>r\<rfloor> = \<lfloor>s\<rfloor>")
  case True
  have "r - of_int \<lfloor>s\<rfloor> \<le> s - of_int \<lfloor>s\<rfloor>" using assms by simp
  then show ?thesis
    by (auto simp: round_half_even_def Let_def True)
next
  case False
  have "\<lfloor>r\<rfloor> \<le> \<lfloor>s\<rfloor>" using assms by (rule floor_mono)
  with False have "\<lfloor>r\<rfloor> + 1 \<le> \<lfloor>s\<rfloor>" by simp
  then show ?thesis using rhe_upper [of r] rhe_lower [of s] by linarith
qed

lemma rhe_ge_int: "of_int k \<le> r \<Longrightarrow> k \<le> round_half_even r"
  using rhe_mono [of "of_int k" r] by simp

lemma rhe_le_int: "r \<le> of_int k \<Longrightarrow> round_half_even r \<le> k"
  using rhe_mono [of r "of_int k"] by simp

lemma rnd_float:
  assumes "is_float q"
  shows "rnd q = q"
proof -
  define r where "r = q / 2 powi ulp_exp q"
  have fr: "of_int \<lfloor>r\<rfloor> = r"
    using assms unfolding is_float_def Let_def r_def by blast
  have "round_half_even r = \<lfloor>r\<rfloor>"
    by (subst fr [symmetric]) (rule rhe_of_int)
  then have "rnd q = of_int \<lfloor>r\<rfloor> * 2 powi ulp_exp q"
    by (simp only: rnd_def r_def)
  also have "\<dots> = r * 2 powi ulp_exp q" by (simp only: fr)
  also have "\<dots> = q" by (simp add: r_def)
  finally show ?thesis .
qed

lemma rnd_zero [simp]: "rnd 0 = 0"
  by (simp add: rnd_def round_half_even_def)

lemma rnd_nonneg:
  assumes "0 \<le> q"
  shows "0 \<le> rnd q"
proof -
  have "(of_int 0 :: rat) \<le> q / 2 powi ulp_exp q"
    using assms by (simp add: pow2_pos)
  then have "0 \<le> round_half_even (q / 2 powi ulp_exp q)"
    by (rule rhe_ge_int)
  then show ?thesis by (simp add: rnd_def pow2_pos)
qed

lemma ulp_exp_mono:
  assumes "p \<noteq> 0" and "\<bar>p\<bar> \<le> \<bar>q\<bar>"
  shows "ulp_exp p \<le> ulp_exp q"
  using ilog2_mono [OF assms] by (simp add: ulp_exp_def)

lemma rnd_mono_pos:
  assumes "0 < p" and "p \<le> q"
  shows "rnd p \<le> rnd q"
proof (cases "ulp_exp p = ulp_exp q")
  case True
  have "p / 2 powi ulp_exp q \<le> q / 2 powi ulp_exp q"
    using assms(2) by (simp add: divide_right_mono pow2_pos less_imp_le)
  then have "round_half_even (p / 2 powi ulp_exp q) \<le> round_half_even (q / 2 powi ulp_exp q)"
    by (rule rhe_mono)
  then show ?thesis
    by (simp add: rnd_def True pow2_pos)
next
  case False
  have p0: "p \<noteq> 0" and q0: "q \<noteq> 0" and ap: "\<bar>p\<bar> = p" and aq: "\<bar>q\<bar> = q"
    using assms by auto
  have le: "ulp_exp p \<le> ulp_exp q"
    using assms by (intro ulp_exp_mono) auto
  with False have lt: "ulp_exp p < ulp_exp q" by simp
  define e where "e = ilog2 q"
  have uq: "ulp_exp q = e - 52"
    using lt by (auto simp: ulp_exp_def e_def max_def split: if_splits)
  have "ilog2 p - 52 \<le> ulp_exp p" by (simp add: ulp_exp_def)
  with lt uq have ep: "ilog2 p + 1 \<le> e" by simp
  have "- 1074 \<le> ulp_exp p" by (simp add: ulp_exp_def)
  have up: "0 \<le> e - ulp_exp p" using lt uq by simp
  have "p < 2 powi (ilog2 p + 1)"
    using ilog2_bounds(2) [OF p0] ap by simp
  also have "\<dots> \<le> 2 powi e" using ep by (simp add: pow2_le_iff)
  finally have pe: "p < 2 powi e" .
  have "p / 2 powi ulp_exp p \<le> 2 powi e / 2 powi ulp_exp p"
    using pe by (simp add: divide_right_mono pow2_pos less_imp_le)
  also have "\<dots> = of_int (2 ^ nat (e - ulp_exp p))"
    using up by (simp only: pow2_of_int pow2_diff)
  finally have "round_half_even (p / 2 powi ulp_exp p) \<le> 2 ^ nat (e - ulp_exp p)"
    by (rule rhe_le_int)
  then have "of_int (round_half_even (p / 2 powi ulp_exp p)) \<le> (of_int (2 ^ nat (e - ulp_exp p)) :: rat)"
    by (subst of_int_le_iff)
  then have "rnd p \<le> of_int (2 ^ nat (e - ulp_exp p)) * 2 powi ulp_exp p"
    unfolding rnd_def by (rule mult_right_mono) (simp add: pow2_pos less_imp_le)
  also have "\<dots> = 2 powi e"
    using up by (simp only: pow2_of_int pow2_diff) simp
  finally have one: "rnd p \<le> 2 powi e" .
  have "2 powi e \<le> q"
    using ilog2_bounds(1) [OF q0] aq by (simp add: e_def)
  then have "2 powi e / 2 powi ulp_exp q \<le> q / 2 powi ulp_exp q"
    by (simp add: divide_right_mono pow2_pos less_imp_le)
  moreover have "2 powi e / 2 powi ulp_exp q = (of_int (2 ^ nat 52) :: rat)"
    unfolding uq by (simp only: pow2_of_int flip: pow2_diff) simp
  ultimately have "of_int (2 ^ nat 52) \<le> q / 2 powi ulp_exp q" by simp
  then have "2 ^ nat 52 \<le> round_half_even (q / 2 powi ulp_exp q)"
    by (rule rhe_ge_int)
  then have "(of_int (2 ^ nat 52) :: rat) \<le> of_int (round_half_even (q / 2 powi ulp_exp q))"
    by (subst of_int_le_iff)
  then have "of_int (2 ^ nat 52) * 2 powi ulp_exp q \<le> rnd q"
    unfolding rnd_def by (rule mult_right_mono) (simp add: pow2_pos less_imp_le)
  moreover have "of_int (2 ^ nat 52) * 2 powi ulp_exp q = (2::rat) powi e"
    unfolding uq by (simp only: pow2_of_int flip: pow2_add) simp
  ultimately have two: "2 powi e \<le> rnd q" by simp
  from one two show ?thesis by simp
qed

lemma rnd_mono:
  assumes "0 \<le> p" and "p \<le> q"
  shows "rnd p \<le> rnd q"
proof (cases "p = 0")
  case True
  then show ?thesis using rnd_nonneg [of q] assms by simp
next
  case False
  then show ?thesis using assms by (intro rnd_mono_pos) auto
qed


lemma is_float_multiple:
  assumes q: "q = of_int k * 2 powi v" and v: "ulp_exp q \<le> v" and b: "\<bar>q\<bar> < 2 ^ 1024"
  shows "is_float q"
proof -
  have "q / 2 powi ulp_exp q = of_int k * (2 powi v / 2 powi ulp_exp q)"
    by (subst q) simp
  also have "\<dots> = of_int k * of_int (2 ^ nat (v - ulp_exp q))"
    using v by (simp only: pow2_of_int pow2_diff)
  also have "\<dots> = of_int (k * 2 ^ nat (v - ulp_exp q))"
    by (simp only: of_int_mult)
  finally have "of_int \<lfloor>q / 2 powi ulp_exp q\<rfloor> = q / 2 powi ulp_exp q"
    by (simp only: floor_of_int)
  then show ?thesis using b by (simp only: is_float_def Let_def simp_thms)
qed

lemma is_float_repr:
  assumes "is_float q"
  shows "q = of_int \<lfloor>q / 2 powi ulp_exp q\<rfloor> * 2 powi ulp_exp q"
proof -
  have "of_int \<lfloor>q / 2 powi ulp_exp q\<rfloor> = q / 2 powi ulp_exp q"
    using assms unfolding is_float_def Let_def by blast
  then show ?thesis by (simp only:) simp
qed

lemma is_float_zero: "is_float 0"
  by (simp add: is_float_def)

lemma is_float_of_int:
  assumes "\<bar>n\<bar> < 2 ^ 53"
  shows "is_float (of_int n)"
proof (cases "n = 0")
  case True
  then show ?thesis by (simp add: is_float_zero)
next
  case False
  have "(of_int \<bar>n\<bar> :: rat) < of_int (2 ^ 53)"
    using assms by (subst of_int_less_iff)
  then have lt: "\<bar>of_int n :: rat\<bar> < 2 powi 53" by simp
  have "ilog2 (of_int n) < 53"
    using lt False by (intro ilog2_less) simp_all
  then have u: "ulp_exp (of_int n) \<le> 0" by (simp add: ulp_exp_def)
  have "\<bar>of_int n :: rat\<bar> < 2 ^ 1024"
    using lt by (rule less_trans) simp
  then show ?thesis
    using u by (intro is_float_multiple [where k = n and v = 0]) simp_all
qed

lemma float_large_integral:
  assumes "is_float x" and "2 ^ 53 \<le> \<bar>x\<bar>"
  shows "of_int \<lfloor>x\<rfloor> = x"
proof -
  have "(2::rat) powi 53 \<le> \<bar>x\<bar>" using assms(2) by simp
  then have "53 \<le> ilog2 x" by (rule ilog2_ge)
  then have u: "0 \<le> ulp_exp x" by (simp add: ulp_exp_def)
  have "x = of_int \<lfloor>x / 2 powi ulp_exp x\<rfloor> * 2 powi ulp_exp x"
    using assms(1) by (rule is_float_repr)
  also have "\<dots> = of_int \<lfloor>x / 2 powi ulp_exp x\<rfloor> * of_int (2 ^ nat (ulp_exp x))"
    using u by (simp only: pow2_of_int)
  also have "\<dots> = of_int (\<lfloor>x / 2 powi ulp_exp x\<rfloor> * 2 ^ nat (ulp_exp x))"
    by (simp only: of_int_mult)
  finally have "x = of_int (\<lfloor>x / 2 powi ulp_exp x\<rfloor> * 2 ^ nat (ulp_exp x))" .
  then show ?thesis by (metis floor_of_int)
qed

lemma is_float_floor:
  assumes "is_float x" and "0 \<le> x"
  shows "is_float (of_int \<lfloor>x\<rfloor>)"
proof (cases "x < 2 ^ 53")
  case True
  have "\<lfloor>x\<rfloor> < 2 ^ 53" using True by (simp add: floor_less_iff)
  moreover have "0 \<le> \<lfloor>x\<rfloor>" using assms(2) by simp
  ultimately show ?thesis by (intro is_float_of_int) simp
next
  case False
  then have e: "of_int \<lfloor>x\<rfloor> = x"
    using assms by (intro float_large_integral) simp_all
  show ?thesis by (subst e) (rule assms(1))
qed

lemma is_float_frac:
  assumes "is_float x" and "0 \<le> x"
  shows "is_float (x - of_int \<lfloor>x\<rfloor>)"
proof -
  define f where "f = x - of_int \<lfloor>x\<rfloor>"
  define u where "u = ulp_exp x"
  define k where "k = \<lfloor>x / 2 powi u\<rfloor>"
  have x: "x = of_int k * 2 powi u"
    unfolding k_def u_def using assms(1) by (rule is_float_repr)
  have f0: "0 \<le> f" and f1: "f < 1" by (simp_all add: f_def) linarith
  have "is_float f"
  proof (cases "f = 0 \<or> 0 \<le> u")
    case True
    have "f = 0"
    proof (cases "f = 0")
      case False
      with True have u: "0 \<le> u" by simp
      have "x = of_int k * of_int (2 ^ nat u)"
        using x u by (simp only: pow2_of_int)
      then have "x = of_int (k * 2 ^ nat u)" by (simp only: of_int_mult)
      then have e: "of_int \<lfloor>x\<rfloor> = x" by (metis floor_of_int)
      show ?thesis unfolding f_def by (subst e) simp
    qed
    then show ?thesis by (simp add: is_float_zero)
  next
    case False
    then have fn: "f \<noteq> 0" and u: "0 \<le> - u" by simp_all
    have "of_int \<lfloor>x\<rfloor> = of_int \<lfloor>x\<rfloor> * (2 powi (- u) * 2 powi u :: rat)"
      by (simp flip: pow2_add)
    also have "\<dots> = of_int \<lfloor>x\<rfloor> * of_int (2 ^ nat (- u)) * 2 powi u"
      using u by (simp only: pow2_of_int mult.assoc)
    finally have fl: "of_int \<lfloor>x\<rfloor> = of_int (\<lfloor>x\<rfloor> * 2 ^ nat (- u)) * (2 powi u :: rat)"
      by (simp only: of_int_mult)
    have "f = of_int k * 2 powi u - of_int (\<lfloor>x\<rfloor> * 2 ^ nat (- u)) * 2 powi u"
      unfolding f_def using x fl by simp
    then have fk: "f = of_int (k - \<lfloor>x\<rfloor> * 2 ^ nat (- u)) * 2 powi u"
      by (simp only: of_int_diff left_diff_distrib)
    have "\<bar>f\<bar> \<le> \<bar>x\<bar>" using f0 assms(2) by (simp add: f_def)
    then have "ulp_exp f \<le> u"
      unfolding u_def using fn by (intro ulp_exp_mono)
    moreover have "\<bar>f\<bar> < 2 ^ 1024"
      using f0 f1 by simp
    ultimately show ?thesis using fk by (intro is_float_multiple)
  qed
  then show ?thesis by (simp only: f_def)
qed

lemma float_below_one:
  assumes "is_float f" and "0 \<le> f" and "f < 1"
  shows "f \<le> 1 - 1 / 2 ^ 53"
proof (cases "f < 1 / 2")
  case True
  have "(1 / 2 :: rat) \<le> 1 - 1 / 2 ^ 53" by simp
  with True show ?thesis by simp
next
  case False
  have "(2::rat) powi (- 1) \<le> \<bar>f\<bar>" using False assms(2) by (simp add: power_int_minus)
  moreover have "\<bar>f\<bar> < 2 powi (- 1 + 1)" using assms by simp
  ultimately have "ilog2 f = - 1" by (rule ilog2_unique)
  then have u: "ulp_exp f = - 53" by (simp add: ulp_exp_def)
  define k where "k = \<lfloor>f / 2 powi ulp_exp f\<rfloor>"
  have "f = of_int k * 2 powi ulp_exp f"
    unfolding k_def using assms(1) by (rule is_float_repr)
  moreover have "(2::rat) powi (- 53) = 1 / 2 ^ 53"
    by (simp add: power_int_minus_divide)
  ultimately have fk: "f = of_int k / 2 ^ 53"
    by (simp only: u times_divide_eq_right mult_1_right)
  have "(of_int k :: rat) < of_int (2 ^ 53)"
    using assms(3) unfolding fk by simp
  then have "k < 2 ^ 53" by (subst (asm) of_int_less_iff)
  then have "k \<le> 2 ^ 53 - 1" by simp
  then have "(of_int k :: rat) \<le> of_int (2 ^ 53 - 1)" by (subst of_int_le_iff)
  then have "(of_int k :: rat) / 2 ^ 53 \<le> of_int (2 ^ 53 - 1) / 2 ^ 53"
    by (rule divide_right_mono) simp
  then show ?thesis unfolding fk by (simp add: diff_divide_distrib)
qed

lemma rnd_top_millis: "rnd ((1 - 1 / 2 ^ 53) * 1000) < 1000"
  by code_simp

lemma millis_range:
  assumes "is_float x" and "0 \<le> x"
  shows "0 \<le> rnd ((x - of_int \<lfloor>x\<rfloor>) * 1000)" and "rnd ((x - of_int \<lfloor>x\<rfloor>) * 1000) < 1000"
proof -
  define f where "f = x - of_int \<lfloor>x\<rfloor>"
  have f0: "0 \<le> f" and f1: "f < 1" by (simp_all add: f_def) linarith
  have "is_float f" unfolding f_def using assms by (rule is_float_frac)
  then have "f \<le> 1 - 1 / 2 ^ 53" using f0 f1 by (rule float_below_one)
  then have "f * 1000 \<le> (1 - 1 / 2 ^ 53) * 1000" by simp
  moreover have "0 \<le> f * 1000" using f0 by simp
  ultimately have "rnd (f * 1000) \<le> rnd ((1 - 1 / 2 ^ 53) * 1000)"
    by (intro rnd_mono)
  then show "rnd ((x - of_int \<lfloor>x\<rfloor>) * 1000) < 1000"
    using rnd_top_millis unfolding f_def by linarith
  show "0 \<le> rnd ((x - of_int \<lfloor>x\<rfloor>) * 1000)"
    using f0 by (intro rnd_nonneg) (simp add: f_def)
qed


lemma py_int_nonneg: "0 \<le> x \<Longrightarrow> py_int x = \<lfloor>x\<rfloor>"
  by (simp add: py_int_def)

lemma floor_divide_int:
  assumes "0 < n"
  shows "\<lfloor>(x::rat) / of_int n\<rfloor> = \<lfloor>x\<rfloor> div n"
proof (rule floor_unique)
  have n: "0 < (of_int n :: rat)" using assms by simp
  have "\<lfloor>x\<rfloor> div n * n \<le> \<lfloor>x\<rfloor>"
    using div_mult_mod_eq [of "\<lfloor>x\<rfloor>" n] pos_mod_sign [OF assms, of "\<lfloor>x\<rfloor>"] by linarith
  then have "(of_int (\<lfloor>x\<rfloor> div n * n) :: rat) \<le> of_int \<lfloor>x\<rfloor>"
    by (subst of_int_le_iff)
  also have "\<dots> \<le> x" by simp
  finally have "of_int (\<lfloor>x\<rfloor> div n) * of_int n \<le> x" by simp
  then show "of_int (\<lfloor>x\<rfloor> div n) \<le> x / of_int n"
    using n by (simp add: pos_le_divide_eq)
  have "\<lfloor>x\<rfloor> mod n < n" using assms by simp
  then have "\<lfloor>x\<rfloor> + 1 \<le> \<lfloor>x\<rfloor> div n * n + n"
    using div_mult_mod_eq [of "\<lfloor>x\<rfloor>" n] by linarith
  then have "(of_int (\<lfloor>x\<rfloor> + 1) :: rat) \<le> of_int (\<lfloor>x\<rfloor> div n * n + n)"
    by (subst of_int_le_iff)
  moreover have "x < of_int (\<lfloor>x\<rfloor> + 1)" by simp linarith
  ultimately have "x < of_int (\<lfloor>x\<rfloor> div n * n + n)" by (rule less_le_trans [rotated])
  then have "x < (of_int (\<lfloor>x\<rfloor> div n) + 1) * of_int n"
    by (simp add: distrib_right)
  then show "x / of_int n < of_int (\<lfloor>x\<rfloor> div n) + 1"
    using n by (simp add: pos_divide_less_eq)
qed

lemma fmod_nonneg:
  assumes "0 \<le> x" and "0 < y"
  shows "fmod x y = x - y * of_int \<lfloor>x / y\<rfloor>"
    and "0 \<le> fmod x y" and "fmod x y < y"
proof -
  have d: "0 \<le> x / y" using assms by simp
  show e: "fmod x y = x - y * of_int \<lfloor>x / y\<rfloor>"
    by (simp add: fmod_def py_int_nonneg [OF d])
  have "of_int \<lfloor>x / y\<rfloor> \<le> x / y" by simp
  then have "of_int \<lfloor>x / y\<rfloor> * y \<le> x"
    using assms(2) by (simp only: pos_le_divide_eq)
  then show "0 \<le> fmod x y" by (simp add: e mult.commute)
  have "x / y < of_int \<lfloor>x / y\<rfloor> + 1" by linarith
  then have "x < (of_int \<lfloor>x / y\<rfloor> + 1) * y"
    using assms(2) by (simp only: pos_divide_less_eq)
  then show "fmod x y < y" by (simp add: e algebra_simps)
qed

lemma float_rem_nonneg:
  assumes "0 \<le> x" and "0 < y"
  shows "float_rem x y = x - y * of_int \<lfloor>x / y\<rfloor>"
proof -
  have "\<not> fmod x y < 0" using fmod_nonneg(2) [OF assms] by simp
  moreover have "\<not> y < 0" using assms(2) by simp
  ultimately show ?thesis
    unfolding float_rem_def Let_def using fmod_nonneg(1) [OF assms] by simp
qed

lemma float_floor_div_nonneg:
  assumes "0 \<le> x" and "0 < y"
  shows "float_floor_div x y =
           (let d = rnd (rnd (y * of_int \<lfloor>x / y\<rfloor>) / y)
            in if d \<noteq> 0
               then if 1 / 2 < rnd (d - of_int \<lfloor>d\<rfloor>) then rnd (of_int \<lfloor>d\<rfloor> + 1)
                    else of_int \<lfloor>d\<rfloor>
               else 0)"
proof -
  have m: "\<not> fmod x y < 0" using fmod_nonneg(2) [OF assms] by simp
  have y: "\<not> y < 0" using assms(2) by simp
  have s: "x - fmod x y = y * of_int \<lfloor>x / y\<rfloor>"
    by (simp add: fmod_nonneg(1) [OF assms])
  show ?thesis
    unfolding float_floor_div_def float_div_mod_def Let_def float_sub_def float_div_def
      float_add_def s
    using m y by (simp add: split_def)
qed

lemma float_floor_div_exact:
  assumes "0 \<le> x" and "x < 2 ^ 53" and "0 < n"
  shows "float_floor_div x (of_int n) = of_int \<lfloor>x / of_int n\<rfloor>"
proof -
  define q where "q = \<lfloor>x / of_int n\<rfloor>"
  have n: "0 < (of_int n :: rat)" using assms(3) by simp
  have q0: "0 \<le> q" using assms(1) n by (simp add: q_def)
  have "of_int q \<le> x / of_int n" by (simp add: q_def)
  then have "of_int q * of_int n \<le> x" using n by (simp only: pos_le_divide_eq)
  then have "(of_int (n * q) :: rat) < of_int (2 ^ 53)"
    using assms(2) by (simp add: mult.commute)
  then have nq: "n * q < 2 ^ 53" by (subst (asm) of_int_less_iff)
  have "q \<le> n * q" using q0 assms(3) by (simp add: mult_le_cancel_right1)
  then have qb: "q < 2 ^ 53" using nq by simp
  have f1: "is_float (of_int (n * q))"
    using nq q0 assms(3) by (intro is_float_of_int) simp
  have f2: "is_float (of_int q)"
    using qb q0 by (intro is_float_of_int) simp
  have r1: "rnd (of_int n * of_int q) = of_int n * of_int q"
    using rnd_float [OF f1] by simp
  have "of_int n * of_int q / (of_int n :: rat) = of_int q" using n by simp
  then have r2: "rnd (rnd (of_int n * of_int q) / of_int n) = of_int q"
    using rnd_float [OF f2] by (simp only: r1)
  show ?thesis
    unfolding float_floor_div_nonneg [OF assms(1) n] q_def [symmetric] Let_def r2
    by simp
qed

lemma float_floor_div_ge:
  assumes "0 \<le> x" and "0 < n" and "0 \<le> k" and "of_int (n * k) \<le> x"
    and "is_float (of_int (n * k))" and "is_float (of_int k)" and "is_float (of_int k + 1)"
  shows "of_int k \<le> float_floor_div x (of_int n)"
proof -
  define q where "q = \<lfloor>x / of_int n\<rfloor>"
  have n: "0 < (of_int n :: rat)" using assms(2) by simp
  have "of_int k * of_int n \<le> x" using assms(4) by (simp add: mult.commute)
  then have "of_int k \<le> x / of_int n" using n by (simp only: pos_le_divide_eq)
  then have kq: "k \<le> q" by (simp add: q_def le_floor_iff)
  then have "(of_int (n * k) :: rat) \<le> of_int (n * q)"
    using assms(2) by (subst of_int_le_iff) simp
  moreover have "0 \<le> (of_int (n * k) :: rat)" using assms(2,3) by simp
  ultimately have "rnd (of_int (n * k)) \<le> rnd (of_int (n * q))" by (simp only: rnd_mono)
  then have "of_int (n * k) \<le> rnd (of_int n * of_int q)"
    using rnd_float [OF assms(5)] by simp
  then have "of_int (n * k) / of_int n \<le> rnd (of_int n * of_int q) / of_int n"
    using n by (simp only: divide_right_mono less_imp_le)
  then have "of_int k \<le> rnd (of_int n * of_int q) / of_int n" using n by simp
  moreover have "0 \<le> (of_int k :: rat)" using assms(3) by simp
  ultimately have "rnd (of_int k) \<le> rnd (rnd (of_int n * of_int q) / of_int n)"
    by (simp only: rnd_mono)
  then have d: "of_int k \<le> rnd (rnd (of_int n * of_int q) / of_int n)"
    using rnd_float [OF assms(6)] by simp
  define d where "d = rnd (rnd (of_int n * of_int q) / of_int n)"
  have dk: "of_int k \<le> d" using d by (simp add: d_def)
  then have fk: "k \<le> \<lfloor>d\<rfloor>" by (simp add: le_floor_iff)
  then have c1: "(of_int k :: rat) \<le> of_int \<lfloor>d\<rfloor>" by (subst of_int_le_iff)
  have "(of_int k :: rat) + 1 \<le> of_int \<lfloor>d\<rfloor> + 1" using c1 by simp
  moreover have "0 \<le> (of_int k :: rat) + 1" using assms(3) by simp
  ultimately have "rnd (of_int k + 1) \<le> rnd (of_int \<lfloor>d\<rfloor> + 1)" by (simp only: rnd_mono)
  then have c2: "of_int k \<le> rnd (of_int \<lfloor>d\<rfloor> + 1)"
    using rnd_float [OF assms(7)] by simp
  have c3: "d = 0 \<Longrightarrow> (of_int k :: rat) \<le> 0" using dk by simp
  show ?thesis
    unfolding float_floor_div_nonneg [OF assms(1) n] q_def [symmetric] d_def [symmetric] Let_def
    using c1 c2 c3 by simp
qed


lemma floor_sub_int_mult: "\<lfloor>(x::rat) - of_int a * of_int b\<rfloor> = \<lfloor>x\<rfloor> - a * b"
proof -
  have "x - of_int a * of_int b = x - of_int (a * b)" by simp
  then show ?thesis by (simp only: floor_diff_of_int)
qed

lemma minutes_field:
  assumes "0 \<le> x"
  shows "py_int (float_floor_div (float_rem x 3600) 60) = \<lfloor>x\<rfloor> mod 3600 div 60"
proof -
  define r where "r = x - 3600 * of_int \<lfloor>x / 3600\<rfloor>"
  have rem: "float_rem x 3600 = r"
    using float_rem_nonneg [OF assms, of 3600] by (simp add: r_def)
  have "r = fmod x 3600" using fmod_nonneg(1) [OF assms, of 3600] by (simp add: r_def)
  then have r0: "0 \<le> r" and r1: "r < 3600"
    using fmod_nonneg(2,3) [OF assms, of 3600] by simp_all
  have "r < 2 ^ 53" using r1 by (rule less_trans) simp
  then have "float_floor_div r (of_int 60) = of_int \<lfloor>r / of_int 60\<rfloor>"
    using r0 by (intro float_floor_div_exact) simp_all
  then have "py_int (float_floor_div r 60) = \<lfloor>r / of_int 60\<rfloor>"
    by (simp add: py_int_def)
  also have "\<dots> = \<lfloor>r\<rfloor> div 60" by (rule floor_divide_int) simp
  also have "\<lfloor>r\<rfloor> = \<lfloor>x\<rfloor> - 3600 * \<lfloor>x / of_int 3600\<rfloor>"
    using floor_sub_int_mult [of x 3600 "\<lfloor>x / 3600\<rfloor>"] by (simp add: r_def)
  also have "\<lfloor>x / of_int 3600\<rfloor> = \<lfloor>x\<rfloor> div 3600" by (rule floor_divide_int) simp
  also have "\<lfloor>x\<rfloor> - 3600 * (\<lfloor>x\<rfloor> div 3600) = \<lfloor>x\<rfloor> mod 3600"
    by (simp add: minus_mult_div_eq_mod)
  finally show ?thesis by (simp only: rem)
qed

lemma secs_field:
  assumes "0 \<le> x"
  shows "py_int (float_rem x 60) = \<lfloor>x\<rfloor> mod 60"
proof -
  define r where "r = x - 60 * of_int \<lfloor>x / 60\<rfloor>"
  have rem: "float_rem x 60 = r"
    using float_rem_nonneg [OF assms, of 60] by (simp add: r_def)
  have "r = fmod x 60" using fmod_nonneg(1) [OF assms, of 60] by (simp add: r_def)
  then have r0: "0 \<le> r" using fmod_nonneg(2) [OF assms, of 60] by simp
  have "py_int r = \<lfloor>r\<rfloor>" using r0 by (rule py_int_nonneg)
  also have "\<lfloor>r\<rfloor> = \<lfloor>x\<rfloor> - 60 * \<lfloor>x / of_int 60\<rfloor>"
    using floor_sub_int_mult [of x 60 "\<lfloor>x / 60\<rfloor>"] by (simp add: r_def)
  also have "\<lfloor>x / of_int 60\<rfloor> = \<lfloor>x\<rfloor> div 60" by (rule floor_divide_int) simp
  also have "\<lfloor>x\<rfloor> - 60 * (\<lfloor>x\<rfloor> div 60) = \<lfloor>x\<rfloor> mod 60"
    by (simp add: minus_mult_div_eq_mod)
  finally show ?thesis by (simp only: rem)
qed

lemma millis_field:
  assumes "is_float x" and "0 \<le> x"
  shows "py_int (float_mul (float_sub x (float_of_int (py_int x))) 1000)
           = \<lfloor>rnd ((x - of_int \<lfloor>x\<rfloor>) * 1000)\<rfloor>"
proof -
  have a: "float_of_int (py_int x) = of_int \<lfloor>x\<rfloor>"
    using rnd_float [OF is_float_floor [OF assms]]
    by (simp add: float_of_int_def py_int_nonneg [OF assms(2)])
  have b: "float_sub x (of_int \<lfloor>x\<rfloor>) = x - of_int \<lfloor>x\<rfloor>"
    using rnd_float [OF is_float_frac [OF assms]] by (simp add: float_sub_def)
  show ?thesis
    unfolding a b float_mul_def using millis_range(1) [OF assms] by (rule py_int_nonneg)
qed

lemma hours_field_floor:
  assumes "0 \<le> x"
  shows "float_floor_div x 3600 = float_floor_div (of_int \<lfloor>x\<rfloor>) 3600"
proof -
  have "\<lfloor>x / of_int 3600\<rfloor> = \<lfloor>x\<rfloor> div 3600" by (rule floor_divide_int) simp
  moreover have "\<lfloor>(of_int \<lfloor>x\<rfloor> :: rat) / of_int 3600\<rfloor> = \<lfloor>x\<rfloor> div 3600"
    by (simp only: floor_divide_of_int_eq)
  ultimately have e: "\<lfloor>x / 3600\<rfloor> = \<lfloor>(of_int \<lfloor>x\<rfloor> :: rat) / 3600\<rfloor>" by simp
  have f: "0 \<le> (of_int \<lfloor>x\<rfloor> :: rat)" using assms by simp
  show ?thesis
    unfolding float_floor_div_nonneg [OF assms, of 3600, simplified]
      float_floor_div_nonneg [OF f, of 3600, simplified] e ..
qed

lemma hours_field_nonneg:
  assumes "0 \<le> x"
  shows "0 \<le> py_int (float_floor_div x 3600)"
proof -
  have "is_float (of_int (3600 * 0))" "is_float (of_int 0)" "is_float (of_int 0 + 1)"
    using is_float_of_int [of 0] is_float_of_int [of 1] by simp_all
  then have "of_int 0 \<le> float_floor_div x (of_int 3600)"
    using assms by (intro float_floor_div_ge) simp_all
  then show ?thesis by (simp add: py_int_def)
qed

lemma hours_field_ge_100:
  assumes "360000 \<le> x"
  shows "100 \<le> py_int (float_floor_div x 3600)"
proof -
  have "is_float (of_int (3600 * 100))" "is_float (of_int 100)" "is_float (of_int 101)"
    by (rule is_float_of_int, simp)+
  then have "is_float (of_int (3600 * 100))" "is_float (of_int 100)" "is_float (of_int 100 + 1)"
    by simp_all
  then have "of_int 100 \<le> float_floor_div x (of_int 3600)"
    using assms by (intro float_floor_div_ge) simp_all
  then have "100 \<le> float_floor_div x 3600" by simp
  then show ?thesis by (simp add: py_int_def le_floor_iff)
qed

lemma hours_field_exact:
  assumes "0 \<le> x" and "x < 2 ^ 53"
  shows "py_int (float_floor_div x 3600) = \<lfloor>x\<rfloor> div 3600"
proof -
  have "float_floor_div x (of_int 3600) = of_int \<lfloor>x / of_int 3600\<rfloor>"
    using assms by (intro float_floor_div_exact) simp_all
  moreover have "\<lfloor>x / of_int 3600\<rfloor> = \<lfloor>x\<rfloor> div 3600" by (rule floor_divide_int) simp
  ultimately have "float_floor_div x 3600 = of_int (\<lfloor>x\<rfloor> div 3600)" by simp
  then show ?thesis by (simp add: py_int_def)
qed

section \<open>Decimal digits and zero padding\<close>


lemma char_of_48: "char_of (48::nat) = CHR ''0''"
  by code_simp

lemma of_char_digit: "n < 10 \<Longrightarrow> (of_char (char_of (48 + n :: nat)) :: nat) = 48 + n"
  by simp

lemma isdigit_iff: "isdigit c \<longleftrightarrow> 48 \<le> (of_char c :: nat) \<and> (of_char c :: nat) \<le> 57"
  by (simp add: isdigit_def less_eq_char_def)

lemma isdigit_digit: "n < 10 \<Longrightarrow> isdigit (char_of (48 + n :: nat))"
  by (simp add: isdigit_iff)

lemma not_isdigit_punct [simp]:
  "\<not> isdigit CHR '':''" "\<not> isdigit CHR '',''" "\<not> isdigit CHR ''.''"
  by (simp_all add: isdigit_iff)

lemma number_of_snoc: "number_of (ds @ [c]) = 10 * number_of ds + (int (of_char c) - 48)"
  by (simp add: number_of_def)

lemma number_of_Nil [simp]: "number_of [] = 0"
  by (simp add: number_of_def)

lemma number_of_single: "number_of [c] = int (of_char c) - 48"
  using number_of_snoc [of "[]" c] by simp

lemma char_of_int_digit: "0 \<le> n \<Longrightarrow> char_of (48 + n :: int) = char_of (48 + nat n)"
proof -
  assume "0 \<le> n"
  then have "48 + n = int (48 + nat n)" by simp
  then show ?thesis by (simp only: char_of_nat)
qed

lemma digits_small: "0 \<le> n \<Longrightarrow> n < 10 \<Longrightarrow> digits n = [char_of (48 + nat n)]"
  by (subst digits.simps) (simp add: char_of_int_digit)

lemma digits_large:
  "10 \<le> n \<Longrightarrow> digits n = digits (n div 10) @ [char_of (48 + nat n mod 10)]"
  by (subst digits.simps) (simp add: char_of_int_digit nat_mod_distrib)

lemma digits_isdigit: "0 \<le> n \<Longrightarrow> c \<in> set (digits n) \<Longrightarrow> isdigit c"
proof (induction n arbitrary: c rule: digits.induct)
  case (1 n)
  show ?case
  proof (cases "n < 10")
    case True
    then show ?thesis using "1.prems" by (auto simp: digits_small isdigit_digit)
  next
    case False
    then have "c \<in> set (digits (n div 10)) \<or> c = char_of (48 + nat n mod 10)"
      using "1.prems" by (auto simp: digits_large)
    moreover have "0 \<le> n div 10" using "1.prems"(1) by simp
    ultimately show ?thesis
      using "1.IH" [OF False] isdigit_digit [of "nat n mod 10"] by auto
  qed
qed

lemma number_of_digits: "0 \<le> n \<Longrightarrow> number_of (digits n) = n"
proof (induction n rule: digits.induct)
  case (1 n)
  show ?case
  proof (cases "n < 10")
    case True
    then show ?thesis using "1.prems" by (simp add: digits_small number_of_single)
  next
    case False
    have "0 \<le> n div 10" using "1.prems" by simp
    then have "number_of (digits (n div 10)) = n div 10" using False by (intro "1.IH") simp_all
    moreover have "int (nat n mod 10) = n mod 10"
      using "1.prems" by (simp add: zmod_int)
    ultimately have "number_of (digits n) = 10 * (n div 10) + n mod 10"
      using False by (simp add: digits_large number_of_snoc)
    then show ?thesis by simp
  qed
qed

lemma length_digits_pos: "0 < length (digits n)"
  by (subst digits.simps) simp

lemma length_digits_ge3: "100 \<le> n \<Longrightarrow> 3 \<le> length (digits n)"
proof -
  assume n: "100 \<le> n"
  then have "digits n = digits (n div 10) @ [char_of (48 + nat n mod 10)]"
    by (intro digits_large) simp
  moreover have "digits (n div 10) =
      digits (n div 10 div 10) @ [char_of (48 + nat (n div 10) mod 10)]"
    using n by (intro digits_large) simp
  ultimately show ?thesis
    using length_digits_pos [of "n div 10 div 10"] by (simp add: Suc_le_eq)
qed

lemma format_0d_nonneg:
  "0 \<le> i \<Longrightarrow> format_0d w i = replicate (w - length (digits i)) CHR ''0'' @ digits i"
  by (simp add: format_0d_def Let_def)

lemma number_of_zeros: "number_of (replicate k CHR ''0'' @ ds) = number_of ds"
proof -
  have "foldl (\<lambda>n c. 10 * n + (int (of_char c) - 48)) 0 (replicate k CHR ''0'') = 0"
    by (induction k) simp_all
  then show ?thesis by (simp add: number_of_def)
qed

lemma format_0d_props:
  assumes "0 \<le> i"
  shows "\<forall>c\<in>set (format_0d w i). isdigit c" and "number_of (format_0d w i) = i"
    and "w \<le> length (format_0d w i)"
    and "100 \<le> i \<Longrightarrow> 3 \<le> length (format_0d w i)"
proof -
  have z: "isdigit CHR ''0''" by (simp add: isdigit_iff)
  show "\<forall>c\<in>set (format_0d w i). isdigit c"
    using z digits_isdigit [OF assms] by (auto simp: format_0d_nonneg [OF assms])
  show "number_of (format_0d w i) = i"
    using assms by (simp add: format_0d_nonneg number_of_zeros number_of_digits)
  show "w \<le> length (format_0d w i)"
    by (simp add: format_0d_nonneg [OF assms])
  show "3 \<le> length (format_0d w i)" if "100 \<le> i"
  proof -
    have "3 \<le> length (digits i)" using that by (rule length_digits_ge3)
    then show ?thesis by (simp add: format_0d_nonneg [OF assms])
  qed
qed

lemma format_0d_2:
  assumes "0 \<le> i" and "i < 100"
  shows "format_0d 2 i = [char_of (48 + nat i div 10), char_of (48 + nat i mod 10)]"
proof (cases "i < 10")
  case True
  then have "digits i = [char_of (48 + nat i)]"
    using assms by (intro digits_small) simp_all
  moreover have "nat i div 10 = 0" "nat i mod 10 = nat i" using True assms by simp_all
  ultimately show ?thesis by (simp add: format_0d_nonneg [OF assms(1)] char_of_48)
next
  case False
  then have "digits i = digits (i div 10) @ [char_of (48 + nat i mod 10)]"
    using assms by (intro digits_large) simp
  moreover have "digits (i div 10) = [char_of (48 + nat (i div 10))]"
    using assms by (intro digits_small) simp_all
  moreover have "nat (i div 10) = nat i div 10" using assms by (simp add: nat_div_distrib)
  ultimately show ?thesis by (simp add: format_0d_nonneg [OF assms(1)])
qed

lemma format_0d_3:
  assumes "0 \<le> i" and "i < 1000"
  shows "format_0d 3 i = [char_of (48 + nat i div 100), char_of (48 + nat i div 10 mod 10),
                          char_of (48 + nat i mod 10)]"
proof -
  define n where "n = nat i"
  have n: "n < 1000" using assms by (simp add: n_def)
  have d1: "nat (i div 10) = n div 10" and d2: "nat (i div 10 div 10) = n div 100"
    using assms by (simp_all add: n_def nat_div_distrib div_mult2_eq [symmetric])
  consider "i < 10" | "10 \<le> i" "i < 100" | "100 \<le> i" by linarith
  then have "replicate (3 - length (digits i)) CHR ''0'' @ digits i =
        [char_of (48 + n div 100), char_of (48 + n div 10 mod 10), char_of (48 + n mod 10)]"
  proof cases
    case 1
    then have "digits i = [char_of (48 + n)]"
      unfolding n_def using assms by (intro digits_small) simp_all
    moreover have "n < 10" using 1 assms by (simp add: n_def)
    ultimately show ?thesis by (simp add: numeral_3_eq_3 char_of_48)
  next
    case 2
    then have "digits i = digits (i div 10) @ [char_of (48 + n mod 10)]"
      unfolding n_def by (intro digits_large)
    moreover have "digits (i div 10) = [char_of (48 + nat (i div 10))]"
      using 2 by (intro digits_small) simp_all
    moreover have "n < 100" "10 \<le> n" using 2 by (simp_all add: n_def)
    ultimately show ?thesis by (simp add: numeral_3_eq_3 char_of_48 d1)
  next
    case 3
    then have "digits i = digits (i div 10) @ [char_of (48 + n mod 10)]"
      unfolding n_def by (intro digits_large) simp
    moreover have "digits (i div 10) =
        digits (i div 10 div 10) @ [char_of (48 + nat (i div 10) mod 10)]"
      using 3 by (intro digits_large) simp
    moreover have "digits (i div 10 div 10) = [char_of (48 + nat (i div 10 div 10))]"
      using assms 3 by (intro digits_small) simp_all
    ultimately show ?thesis by (simp add: d1 d2)
  qed
  then show ?thesis by (simp add: format_0d_nonneg [OF assms(1)] n_def)
qed

section \<open>The shape of a timestamp\<close>


lemma timestamp_shape:
  assumes h: "\<forall>c\<in>set h. isdigit c" and l: "2 \<le> length h"
    and d: "isdigit m1" "isdigit m2" "isdigit s1" "isdigit s2" "isdigit f1" "isdigit f2" "isdigit f3"
    and sep: "sep = CHR '','' \<or> sep = CHR ''.''"
  shows "takeWhile isdigit (h @ '':'' @ [m1, m2] @ '':'' @ [s1, s2] @ [sep] @ [f1, f2, f3]) = h"
    and "matches_timestamp (h @ '':'' @ [m1, m2] @ '':'' @ [s1, s2] @ [sep] @ [f1, f2, f3])"
    and "parse_timestamp (h @ '':'' @ [m1, m2] @ '':'' @ [s1, s2] @ [sep] @ [f1, f2, f3])
           = Some (number_of h, number_of [m1, m2], number_of [s1, s2], number_of [f1, f2, f3])"
proof -
  let ?rest = "[CHR '':'', m1, m2, CHR '':'', s1, s2, sep, f1, f2, f3]"
  have e: "h @ '':'' @ [m1, m2] @ '':'' @ [s1, s2] @ [sep] @ [f1, f2, f3] = h @ ?rest" by simp
  have t: "takeWhile isdigit (h @ ?rest) = h"
    using h by (simp add: takeWhile_append2)
  have dr: "dropWhile isdigit (h @ ?rest) = ?rest"
    using h by (simp add: dropWhile_append2)
  show "takeWhile isdigit (h @ '':'' @ [m1, m2] @ '':'' @ [s1, s2] @ [sep] @ [f1, f2, f3]) = h"
    unfolding e by (rule t)
  show m: "matches_timestamp (h @ '':'' @ [m1, m2] @ '':'' @ [s1, s2] @ [sep] @ [f1, f2, f3])"
    unfolding e matches_timestamp_def Let_def t dr using l d sep by simp
  show "parse_timestamp (h @ '':'' @ [m1, m2] @ '':'' @ [s1, s2] @ [sep] @ [f1, f2, f3])
           = Some (number_of h, number_of [m1, m2], number_of [s1, s2], number_of [f1, f2, f3])"
    using m unfolding parse_timestamp_def e t dr by simp
qed

lemma format_0d_two:
  assumes "0 \<le> i" and "i < 100"
  obtains a b where "format_0d 2 i = [a, b]" and "isdigit a" and "isdigit b"
proof -
  have "format_0d 2 i = [char_of (48 + nat i div 10), char_of (48 + nat i mod 10)]"
    using assms by (rule format_0d_2)
  moreover have "\<forall>c\<in>set (format_0d 2 i). isdigit c"
    using assms(1) by (rule format_0d_props(1))
  ultimately show ?thesis using that by simp
qed

lemma format_0d_three:
  assumes "0 \<le> i" and "i < 1000"
  obtains a b c where "format_0d 3 i = [a, b, c]" and "isdigit a" and "isdigit b" and "isdigit c"
proof -
  have "format_0d 3 i = [char_of (48 + nat i div 100), char_of (48 + nat i div 10 mod 10),
                          char_of (48 + nat i mod 10)]"
    using assms by (rule format_0d_3)
  moreover have "\<forall>c\<in>set (format_0d 3 i). isdigit c"
    using assms(1) by (rule format_0d_props(1))
  ultimately show ?thesis using that by simp
qed

lemma millis_field_range:
  assumes "is_float x" and "0 \<le> x"
  shows "0 \<le> \<lfloor>rnd ((x - of_int \<lfloor>x\<rfloor>) * 1000)\<rfloor>" and "\<lfloor>rnd ((x - of_int \<lfloor>x\<rfloor>) * 1000)\<rfloor> < 1000"
  using millis_range [OF assms] by (simp_all add: floor_less_iff)

lemma format_timestamp_parts:
  assumes "is_float x" and "0 \<le> x"
  shows "format_timestamp x c =
           format_0d 2 (py_int (float_floor_div x 3600)) @ '':''
           @ format_0d 2 (\<lfloor>x\<rfloor> mod 3600 div 60) @ '':''
           @ format_0d 2 (\<lfloor>x\<rfloor> mod 60) @ (if c then '','' else ''.'')
           @ format_0d 3 \<lfloor>rnd ((x - of_int \<lfloor>x\<rfloor>) * 1000)\<rfloor>"
  unfolding format_timestamp_def Let_def
    minutes_field [OF assms(2)] secs_field [OF assms(2)] millis_field [OF assms] ..

lemma parse_format_timestamp:
  assumes "is_float x" and "0 \<le> x"
  shows "parse_timestamp (format_timestamp x c) =
           Some (py_int (float_floor_div x 3600), \<lfloor>x\<rfloor> mod 3600 div 60, \<lfloor>x\<rfloor> mod 60,
                 \<lfloor>rnd ((x - of_int \<lfloor>x\<rfloor>) * 1000)\<rfloor>)"
    and "matches_timestamp (format_timestamp x c)"
    and "takeWhile isdigit (format_timestamp x c) = format_0d 2 (py_int (float_floor_div x 3600))"
proof -
  define H where "H = py_int (float_floor_div x 3600)"
  define M where "M = \<lfloor>x\<rfloor> mod 3600 div 60"
  define S where "S = \<lfloor>x\<rfloor> mod 60"
  define F where "F = \<lfloor>rnd ((x - of_int \<lfloor>x\<rfloor>) * 1000)\<rfloor>"
  have H: "0 \<le> H" unfolding H_def using assms(2) by (rule hours_field_nonneg)
  have M: "0 \<le> M" "M < 100" by (simp_all add: M_def)
  have S: "0 \<le> S" "S < 100" by (simp_all add: S_def)
  have F: "0 \<le> F" "F < 1000" unfolding F_def using millis_field_range [OF assms] by simp_all
  obtain m1 m2 where m: "format_0d 2 M = [m1, m2]" "isdigit m1" "isdigit m2"
    using M by (rule format_0d_two)
  obtain s1 s2 where s: "format_0d 2 S = [s1, s2]" "isdigit s1" "isdigit s2"
    using S by (rule format_0d_two)
  obtain f1 f2 f3 where f: "format_0d 3 F = [f1, f2, f3]" "isdigit f1" "isdigit f2" "isdigit f3"
    using F by (rule format_0d_three)
  define sep where "sep = (if c then CHR '','' else CHR ''.'')"
  have sep: "sep = CHR '','' \<or> sep = CHR ''.''" by (simp add: sep_def)
  have hd: "\<forall>c\<in>set (format_0d 2 H). isdigit c" and hl: "2 \<le> length (format_0d 2 H)"
    using format_0d_props(1,3) [OF H] by simp_all
  have e: "format_timestamp x c =
        format_0d 2 H @ '':'' @ [m1, m2] @ '':'' @ [s1, s2] @ [sep] @ [f1, f2, f3]"
    unfolding format_timestamp_parts [OF assms] H_def [symmetric] M_def [symmetric]
      S_def [symmetric] F_def [symmetric] m s f
    by (simp add: sep_def)
  have nm: "number_of [m1, m2] = M" using format_0d_props(2) [OF M(1), of 2] by (simp only: m)
  have ns: "number_of [s1, s2] = S" using format_0d_props(2) [OF S(1), of 2] by (simp only: s)
  have nf: "number_of [f1, f2, f3] = F" using format_0d_props(2) [OF F(1), of 3] by (simp only: f)
  have nh: "number_of (format_0d 2 H) = H" using H by (rule format_0d_props(2))
  show "parse_timestamp (format_timestamp x c) = Some (H, M, S, F)"
    unfolding e timestamp_shape(3) [OF hd hl m(2,3) s(2,3) f(2,3,4) sep] nm ns nf nh ..
  show "matches_timestamp (format_timestamp x c)"
    unfolding e by (rule timestamp_shape(2) [OF hd hl m(2,3) s(2,3) f(2,3,4) sep])
  show "takeWhile isdigit (format_timestamp x c) = format_0d 2 H"
    unfolding e by (rule timestamp_shape(1) [OF hd hl m(2,3) s(2,3) f(2,3,4) sep])
qed

lemma append_le_append: "(xs @ ys :: string) \<le> xs @ zs \<longleftrightarrow> ys \<le> zs"
  by (induction xs) simp_all

lemma digit_char_less:
  "a < 10 \<Longrightarrow> b < 10 \<Longrightarrow> char_of (48 + a :: nat) < char_of (48 + b :: nat) \<longleftrightarrow> a < b"
  by (simp add: less_char_def)

lemma digit_char_eq:
  "a < 10 \<Longrightarrow> b < 10 \<Longrightarrow> char_of (48 + a :: nat) = char_of (48 + b :: nat) \<longleftrightarrow> a = b"
  by simp

lemma format_0d_3_mono:
  assumes "0 \<le> a" and "a \<le> b" and "b < 1000"
  shows "format_0d 3 a \<le> format_0d 3 b"
proof -
  define m where "m = nat a"
  define n where "n = nat b"
  have mn: "m \<le> n" "n < 1000" using assms by (simp_all add: m_def n_def)
  have a: "format_0d 3 a = [char_of (48 + m div 100), char_of (48 + m div 10 mod 10),
                            char_of (48 + m mod 10)]"
    unfolding m_def using assms by (intro format_0d_3) simp_all
  have b: "format_0d 3 b = [char_of (48 + n div 100), char_of (48 + n div 10 mod 10),
                            char_of (48 + n mod 10)]"
    unfolding n_def using assms by (intro format_0d_3) simp_all
  have r: "m div 100 < 10" "n div 100 < 10" "m div 10 mod 10 < 10" "n div 10 mod 10 < 10"
    "m mod 10 < 10" "n mod 10 < 10"
    using mn by simp_all
  define A B C where "A = m div 100" and "B = m div 10 mod 10" and "C = m mod 10"
  define A' B' C' where "A' = n div 100" and "B' = n div 10 mod 10" and "C' = n mod 10"
  have dm: "k = 100 * (k div 100) + 10 * (k div 10 mod 10) + k mod 10" for k :: nat
  proof -
    have "k div 10 = 10 * (k div 10 div 10) + k div 10 mod 10" by simp
    then have "10 * (k div 10) = 100 * (k div 100) + 10 * (k div 10 mod 10)"
      by (simp add: div_mult2_eq [symmetric])
    moreover have "k = 10 * (k div 10) + k mod 10" by simp
    ultimately show ?thesis by (simp only:)
  qed
  have m: "m = 100 * A + 10 * B + C"
    unfolding A_def B_def C_def by (rule dm)
  have n: "n = 100 * A' + 10 * B' + C'"
    unfolding A'_def B'_def C'_def by (rule dm)
  have bd: "B < 10" "C < 10" "B' < 10" "C' < 10"
    by (simp_all add: B_def C_def B'_def C'_def)
  have "A < A' \<or> A = A' \<and> (B < B' \<or> B = B' \<and> (C < C' \<or> C = C'))"
    using mn(1) bd unfolding m n by linarith
  then show ?thesis
    unfolding a b using r
    by (simp add: digit_char_less digit_char_eq A_def B_def C_def A'_def B'_def C'_def)
qed

lemma format_timestamp_mono:
  assumes "is_float s1" and "is_float s2" and "0 \<le> s1" and "s1 \<le> s2" and "\<lfloor>s1\<rfloor> = \<lfloor>s2\<rfloor>"
  shows "format_timestamp s1 c \<le> format_timestamp s2 c"
proof -
  have s2: "0 \<le> s2" using assms by simp
  have h: "float_floor_div s1 3600 = float_floor_div s2 3600"
    using hours_field_floor [OF assms(3)] hours_field_floor [OF s2] assms(5) by simp
  have "0 \<le> (s1 - of_int \<lfloor>s2\<rfloor>) * 1000"
    using assms(5) [symmetric] by simp
  moreover have "(s1 - of_int \<lfloor>s2\<rfloor>) * 1000 \<le> (s2 - of_int \<lfloor>s2\<rfloor>) * 1000"
    using assms(4) by simp
  ultimately have "rnd ((s1 - of_int \<lfloor>s2\<rfloor>) * 1000) \<le> rnd ((s2 - of_int \<lfloor>s2\<rfloor>) * 1000)"
    by (rule rnd_mono)
  then have "\<lfloor>rnd ((s1 - of_int \<lfloor>s2\<rfloor>) * 1000)\<rfloor> \<le> \<lfloor>rnd ((s2 - of_int \<lfloor>s2\<rfloor>) * 1000)\<rfloor>"
    by (rule floor_mono)
  moreover have "0 \<le> \<lfloor>rnd ((s1 - of_int \<lfloor>s2\<rfloor>) * 1000)\<rfloor>"
    using millis_field_range(1) [OF assms(1,3)] by (simp only: assms(5))
  moreover have "\<lfloor>rnd ((s2 - of_int \<lfloor>s2\<rfloor>) * 1000)\<rfloor> < 1000"
    using assms(2) s2 by (rule millis_field_range(2))
  ultimately have "format_0d 3 \<lfloor>rnd ((s1 - of_int \<lfloor>s2\<rfloor>) * 1000)\<rfloor>
      \<le> format_0d 3 \<lfloor>rnd ((s2 - of_int \<lfloor>s2\<rfloor>) * 1000)\<rfloor>"
    by (intro format_0d_3_mono)
  then show ?thesis
    unfolding format_timestamp_parts [OF assms(1,3)] format_timestamp_parts [OF assms(2) s2]
      h assms(5) append_le_append .
qed

section \<open>The timestamp formula, the pattern and the order of timestamps\<close>





text \<open>
  Claim C4, amended: for every double \<open>seconds\<close> with \<open>0 \<le> seconds < 2^53\<close> and either value
  of the flag, the formatter returns hours \<open>\<lfloor>seconds / 3600\<rfloor>\<close>, minutes
  \<open>\<lfloor>(seconds mod 3600) / 60\<rfloor>\<close> and seconds \<open>\<lfloor>seconds mod 60\<rfloor>\<close>, each zero-padded to width 2,
  the separator (comma exactly when the flag is true), and the milliseconds zero-padded to
  width 3. The first three are the exact values; the milliseconds are the floor of the
  product \<open>(seconds - \<lfloor>seconds\<rfloor>) * 1000\<close> as Python computes it, rounded to the nearest
  double.
\<close>

theorem format_timestamp_formula:
  assumes "is_float seconds" and "0 \<le> seconds" and "seconds < 2 ^ 53"
  shows "format_timestamp seconds use_comma =
           format_0d 2 \<lfloor>seconds / 3600\<rfloor> @ '':''
           @ format_0d 2 \<lfloor>rat_mod seconds 3600 / 60\<rfloor> @ '':''
           @ format_0d 2 \<lfloor>rat_mod seconds 60\<rfloor> @ (if use_comma then '','' else ''.'')
           @ format_0d 3 \<lfloor>float_mul (seconds - of_int \<lfloor>seconds\<rfloor>) 1000\<rfloor>"
proof -
  have h: "py_int (float_floor_div seconds 3600) = \<lfloor>seconds / 3600\<rfloor>"
    using hours_field_exact [OF assms(2,3)] floor_divide_int [of 3600 seconds] by simp
  have "\<lfloor>rat_mod seconds 3600 / of_int 60\<rfloor> = \<lfloor>rat_mod seconds 3600\<rfloor> div 60"
    by (rule floor_divide_int) simp
  moreover have "\<lfloor>rat_mod seconds 3600\<rfloor> = \<lfloor>seconds\<rfloor> - 3600 * \<lfloor>seconds / of_int 3600\<rfloor>"
    using floor_sub_int_mult [of seconds 3600 "\<lfloor>seconds / 3600\<rfloor>"] by (simp add: rat_mod_def)
  moreover have "\<lfloor>seconds / of_int 3600\<rfloor> = \<lfloor>seconds\<rfloor> div 3600"
    by (rule floor_divide_int) simp
  ultimately have m: "\<lfloor>seconds\<rfloor> mod 3600 div 60 = \<lfloor>rat_mod seconds 3600 / 60\<rfloor>"
    by (simp add: minus_mult_div_eq_mod)
  have "\<lfloor>rat_mod seconds 60\<rfloor> = \<lfloor>seconds\<rfloor> - 60 * \<lfloor>seconds / of_int 60\<rfloor>"
    using floor_sub_int_mult [of seconds 60 "\<lfloor>seconds / 60\<rfloor>"] by (simp add: rat_mod_def)
  moreover have "\<lfloor>seconds / of_int 60\<rfloor> = \<lfloor>seconds\<rfloor> div 60"
    by (rule floor_divide_int) simp
  ultimately have s: "\<lfloor>seconds\<rfloor> mod 60 = \<lfloor>rat_mod seconds 60\<rfloor>"
    by (simp add: minus_mult_div_eq_mod)
  show ?thesis
    unfolding format_timestamp_parts [OF assms(1,2)] h m s float_mul_def ..
qed




theorem format_timestamp_formula_witness:
  "format_timestamp (3 / 2) True = ''00:00:01,500''"
proof -
  have a: "is_float (3 / 2)" by code_simp
  have b: "(0::rat) \<le> 3 / 2" "(3 / 2 :: rat) < 2 ^ 53" by simp_all
  have c1: "format_0d 2 \<lfloor>(3 / 2 :: rat) / 3600\<rfloor> = ''00''" by code_simp
  have c2: "format_0d 2 \<lfloor>rat_mod (3 / 2) 3600 / 60\<rfloor> = ''00''" by code_simp
  have c3: "format_0d 2 \<lfloor>rat_mod (3 / 2) 60\<rfloor> = ''01''" by code_simp
  have c4: "format_0d 3 \<lfloor>float_mul (3 / 2 - of_int \<lfloor>3 / 2 :: rat\<rfloor>) 1000\<rfloor> = ''500''"
    by code_simp
  show ?thesis
    using format_timestamp_formula [OF a b, of True] by (simp only: c1 c2 c3 c4) simp
qed



text \<open>
  Claim C4, as stated over the real numbers, fails at two doubles. At the double nearest to
  0.009 the rounded product is 9 and the exact one is below 9, so the code prints 009 where
  the formula gives 008. At a double near \<open>1.57 * 10^20\<close> the floor division of Python
  returns an hour count one above \<open>\<lfloor>seconds / 3600\<rfloor>\<close>.
\<close>

theorem C4_counterexample:
  "is_float (5188146770730811 / 576460752303423488) \<and>
   format_timestamp (5188146770730811 / 576460752303423488) True = ''00:00:00,009'' \<and>
   timestamp_spec (5188146770730811 / 576460752303423488) True = ''00:00:00,008'' \<and>
   is_float 156602447879408812032 \<and>
   format_timestamp 156602447879408812032 True = ''43500679966502448:47:12,000'' \<and>
   timestamp_spec 156602447879408812032 True = ''43500679966502447:47:12,000''"
proof -
  have 1: "is_float (5188146770730811 / 576460752303423488)" by code_simp
  have 2: "format_timestamp (5188146770730811 / 576460752303423488) True = ''00:00:00,009''"
    by code_simp
  have 3: "timestamp_spec (5188146770730811 / 576460752303423488) True = ''00:00:00,008''"
    by code_simp
  have 4: "is_float 156602447879408812032" by code_simp
  have 5: "format_timestamp 156602447879408812032 True = ''43500679966502448:47:12,000''"
    by code_simp
  have 6: "timestamp_spec 156602447879408812032 True = ''43500679966502447:47:12,000''"
    by code_simp
  show ?thesis by (intro conjI 1 2 3 4 5 6)
qed



text \<open>
  Claim C8: for every double \<open>seconds \<ge> 0\<close> the output matches
  \<open>\d{2,}:\d{2}:\d{2}[,.]\d{3}\<close>; from 100 hours on, the hour field has three digits or
  more and denotes a number of at least 100; and for \<open>seconds \<le> s2\<close> within the same integer
  second the output for \<open>seconds\<close> is lexicographically at most the output for \<open>s2\<close>.
\<close>

theorem timestamp_pattern_and_order:
  assumes "is_float seconds" and "0 \<le> seconds"
  shows "matches_timestamp (format_timestamp seconds use_comma)
         \<and> (360000 \<le> seconds \<longrightarrow>
              3 \<le> length (takeWhile isdigit (format_timestamp seconds use_comma))
              \<and> 100 \<le> number_of (takeWhile isdigit (format_timestamp seconds use_comma)))
         \<and> (is_float s2 \<and> seconds \<le> s2 \<and> \<lfloor>seconds\<rfloor> = \<lfloor>s2\<rfloor> \<longrightarrow>
              format_timestamp seconds use_comma \<le> format_timestamp s2 use_comma)"
proof (intro conjI impI)
  show "matches_timestamp (format_timestamp seconds use_comma)"
    using assms by (rule parse_format_timestamp(2))
  have t: "takeWhile isdigit (format_timestamp seconds use_comma)
             = format_0d 2 (py_int (float_floor_div seconds 3600))"
    using assms by (rule parse_format_timestamp(3))
  have h0: "0 \<le> py_int (float_floor_div seconds 3600)"
    using assms(2) by (rule hours_field_nonneg)
  {
    assume "360000 \<le> seconds"
    then have h: "100 \<le> py_int (float_floor_div seconds 3600)" by (rule hours_field_ge_100)
    show "3 \<le> length (takeWhile isdigit (format_timestamp seconds use_comma))"
      unfolding t using h0 h by (rule format_0d_props(4))
    show "100 \<le> number_of (takeWhile isdigit (format_timestamp seconds use_comma))"
      unfolding t format_0d_props(2) [OF h0] by (rule h)
  }
  assume "is_float s2 \<and> seconds \<le> s2 \<and> \<lfloor>seconds\<rfloor> = \<lfloor>s2\<rfloor>"
  then show "format_timestamp seconds use_comma \<le> format_timestamp s2 use_comma"
    using assms by (intro format_timestamp_mono) simp_all
qed



theorem timestamp_pattern_and_order_witness:
  "matches_timestamp (format_timestamp (1440001 / 4) True)
   \<and> 3 \<le> length (takeWhile isdigit (format_timestamp (1440001 / 4) True))
   \<and> format_timestamp (1440001 / 4) True \<le> format_timestamp (720001 / 2) True
   \<and> format_timestamp (1440001 / 4) True = ''100:00:00,250''
   \<and> format_timestamp (720001 / 2) True = ''100:00:00,500''"
proof -
  have a: "is_float (1440001 / 4)" by code_simp
  have b: "is_float (720001 / 2)" by code_simp
  have c: "(0::rat) \<le> 1440001 / 4" "(360000::rat) \<le> 1440001 / 4"
    "(1440001 / 4 :: rat) \<le> 720001 / 2" by simp_all
  have d: "\<lfloor>1440001 / 4 :: rat\<rfloor> = \<lfloor>720001 / 2 :: rat\<rfloor>" by code_simp
  have e: "format_timestamp (1440001 / 4) True = ''100:00:00,250''" by code_simp
  have f: "format_timestamp (720001 / 2) True = ''100:00:00,500''" by code_simp
  show ?thesis
    using timestamp_pattern_and_order [OF a c(1), of True "720001 / 2"] b c d e f by simp
qed












text \<open>
  Claim C7 does not hold for the code. A segment starting at the double 2.26 is rendered
  with the timestamp \<open>00:00:02,259\<close>; read back, that is \<open>2 + 259/1000\<close>, in Python the double
  2.259; formatting this value gives \<open>00:00:02,258\<close>, a different string.
\<close>

theorem subrip_round_trip_fails:
  "is_float (1272266894732165 / 562949953421312)
   \<and> generate_srt [\<lparr>seg_start = 1272266894732165 / 562949953421312, seg_end = 3, seg_text = ''x''\<rparr>]
       = ''1\<newline>00:00:02,259 --> 00:00:03,000\<newline>x\<newline>''
   \<and> parse_timestamp ''00:00:02,259'' = Some (0, 0, 2, 259)
   \<and> timestamp_seconds (0, 0, 2, 259) = 5086815779114975 / 2251799813685248
   \<and> format_timestamp (5086815779114975 / 2251799813685248) True = ''00:00:02,258''"
proof -
  have 1: "is_float (1272266894732165 / 562949953421312)" by code_simp
  have 2: "generate_srt [\<lparr>seg_start = 1272266894732165 / 562949953421312, seg_end = 3,
                          seg_text = ''x''\<rparr>]
       = ''1\<newline>00:00:02,259 --> 00:00:03,000\<newline>x\<newline>''" by code_simp
  have 3: "parse_timestamp ''00:00:02,259'' = Some (0, 0, 2, 259)" by code_simp
  have a: "float_of_int (0 * 3600 + 0 * 60 + 2) = 2" by code_simp
  have b: "float_div (float_of_int 259) (float_of_int 1000)
             = 2332864606977917 / 9007199254740992" by code_simp
  have c: "float_add 2 (2332864606977917 / 9007199254740992)
             = 5086815779114975 / 2251799813685248" by code_simp
  have 4: "timestamp_seconds (0, 0, 2, 259) = 5086815779114975 / 2251799813685248"
    by (simp only: timestamp_seconds_def prod.case a b c)
  have 5: "format_timestamp (5086815779114975 / 2251799813685248) True = ''00:00:02,258''"
    by code_simp
  show ?thesis by (intro conjI 1 2 3 4 5)
qed

end
